theory Spec2Isabelle
  imports Complex_Main "HOL-Library.Multiset" "HOL-Library.Sublist"
begin

section \<open>Strings and the text primitives of the standard library\<close>

text \<open>
  A Python \<^verbatim>\<open>str\<close> is a sequence of Unicode code points, and the program
  handles code points beyond one byte (ligatures, dashes, zero-width characters), so a
  string is a list of code points and \<open>length\<close> counts what \<^verbatim>\<open>len\<close> counts.
\<close>

type_synonym ustr = "nat list"

text \<open>
  The characters matched by \<^verbatim>\<open>\s\<close> in a \<^verbatim>\<open>str\<close> pattern and stripped by
  \<^verbatim>\<open>str.strip()\<close>: both test \<^verbatim>\<open>str.isspace\<close>.
\<close>


definition is_space :: "nat \<Rightarrow> bool" where
  "is_space c \<longleftrightarrow>
     c \<in> {9, 10, 11, 12, 13, 28, 29, 30, 31, 32, 133, 160, 5760, 8232, 8233, 8239, 8287, 12288}
     \<or> (8192 \<le> c \<and> c \<le> 8202)"

text \<open>
  \<^verbatim>\<open>self.comparison_config\<close> of \<^verbatim>\<open>PDFComparerApp.__init__\<close>: the four entries the
  comparison reads. The constant below is the literal the constructor stores.
\<close>

record comparison_config =
  exact_match_threshold :: real
  min_meaningful_text_length :: int
  fuzzy_chunk_size :: int
  enable_enhanced_preprocessing :: bool

definition comparison_config :: comparison_config where
  "comparison_config =
     \<lparr> exact_match_threshold = 92 / 100,
       min_meaningful_text_length = 13,
       fuzzy_chunk_size = 5,
       enable_enhanced_preprocessing = True \<rparr>"

text \<open>\<^verbatim>\<open>re.sub(r'\s+', ' ', text)\<close>: every maximal run of whitespace becomes one space.\<close>

function re_sub_ws :: "ustr \<Rightarrow> ustr" where
  "re_sub_ws [] = []"
| "re_sub_ws (c # cs) =
     (if is_space c then 32 # re_sub_ws (dropWhile is_space cs) else c # re_sub_ws cs)"
  by pat_completeness auto
termination
  by (relation "measure length") (auto simp: length_dropWhile_le less_Suc_eq_le)

text \<open>\<^verbatim>\<open>text.strip()\<close>\<close>

definition strip :: "ustr \<Rightarrow> ustr" where
  "strip s = rev (dropWhile is_space (rev (dropWhile is_space s)))"

text \<open>
  \<^verbatim>\<open>text.replace(old, new)\<close>: all occurrences, leftmost first and not overlapping; with an
  empty \<open>old\<close> Python inserts \<open>new\<close> before every character and at the end.
\<close>

fun str_replace :: "ustr \<Rightarrow> ustr \<Rightarrow> ustr \<Rightarrow> ustr" where
  "str_replace [] new s = new @ concat (map (\<lambda>c. c # new) s)"
| "str_replace (k # ks) new [] = []"
| "str_replace (k # ks) new (c # cs) =
     (if prefix (k # ks) (c # cs)
      then new @ str_replace (k # ks) new (drop (length ks) cs)
      else c # str_replace (k # ks) new cs)"

section \<open>\<^verbatim>\<open>preprocess_text\<close>\<close>

text \<open>
  The \<^verbatim>\<open>replacements\<close> dictionary in insertion order, which is the order the loop
  applies it in. The five ligatures U+FB01, U+FB02, U+FB00, U+FB03, U+FB04, the dashes
  U+2013, U+2014, U+2212, the ellipsis U+2026 and the zero-width characters U+200B,
  U+200C, U+200D, U+FEFF are as written. The "Quotes" line of the source holds ASCII
  quote characters only; Python reads its first three quotes as the opening of a
  triple-quoted string, so the line contributes the seven-character key
  \<^verbatim>\<open>: "'", \<close> (colon, space, double quote, single quote, double quote, comma,
  space) mapped to a single quote, and the key \<^verbatim>\<open>"\<close> mapped to itself (written twice).
\<close>

definition replacements :: "(ustr \<times> ustr) list" where
  "replacements =
     [([64257], [102, 105]), ([64258], [102, 108]), ([64256], [102, 102]),
      ([64259], [102, 102, 105]), ([64260], [102, 102, 108]),
      ([8211], [45]), ([8212], [45]), ([8722], [45]),
      ([58, 32, 34, 39, 34, 44, 32], [39]), ([34], [34]),
      ([8230], [46, 46, 46]),
      ([8203], []), ([8204], []), ([8205], []), ([65279], [])]"

fun apply_replacements :: "(ustr \<times> ustr) list \<Rightarrow> ustr \<Rightarrow> ustr" where
  "apply_replacements [] text = text"
| "apply_replacements ((old, new) # rs) text = apply_replacements rs (str_replace old new text)"

text \<open>\<^verbatim>\<open>re.sub(r'[,;:"\']', ' ', text)\<close>\<close>

definition re_sub_punct :: "ustr \<Rightarrow> ustr" where
  "re_sub_punct s = map (\<lambda>c. if c \<in> {44, 59, 58, 34, 39} then 32 else c) s"

text \<open>
  \<^verbatim>\<open>str.lower\<close> is a table of the Unicode database (with one context-sensitive entry,
  final sigma); it is a parameter of the model.
\<close>

definition preprocess_text :: "(ustr \<Rightarrow> ustr) \<Rightarrow> comparison_config \<Rightarrow> ustr \<Rightarrow> ustr" where
  "preprocess_text lower cfg text =
     (if \<not> enable_enhanced_preprocessing cfg then strip (re_sub_ws text)
      else
        let text = lower text;
            text = apply_replacements replacements text;
            text = re_sub_ws text;
            text = re_sub_punct text;
            text = re_sub_ws text
        in strip text)"

text \<open>
  Lower-casing restricted to the ASCII letters, every other code point unchanged: what
  \<^verbatim>\<open>str.lower\<close> does on ASCII text. It instantiates the parameter in concrete runs.
\<close>

definition ascii_lower :: "ustr \<Rightarrow> ustr" where
  "ascii_lower s = map (\<lambda>c. if 65 \<le> c \<and> c \<le> 90 then c + 32 else c) s"



text \<open>ASCII text as a string of code points, for writing concrete inputs.\<close>

definition ascii :: "string \<Rightarrow> ustr" where
  "ascii s = map of_char s"

section \<open>Splitting and joining\<close>

text \<open>
  \<^verbatim>\<open>re.split(r'\n\s*\n', s)\<close>. A match starts at a line feed (code point 10) and, the
  star being greedy, runs through the whitespace after it up to the last line feed of that
  run; without a line feed in the run there is no match at that position. The pieces
  between the matches are returned, the empty ones included.
\<close>

function re_split_paragraphs_aux :: "ustr \<Rightarrow> ustr \<Rightarrow> ustr list" where
  "re_split_paragraphs_aux cur [] = [cur]"
| "re_split_paragraphs_aux cur (c # cs) =
     (let run = takeWhile is_space cs in
      if c = 10 \<and> 10 \<in> set run
      then cur # re_split_paragraphs_aux []
             (drop (length run - length (takeWhile (\<lambda>x. x \<noteq> 10) (rev run))) cs)
      else re_split_paragraphs_aux (cur @ [c]) cs)"
  by pat_completeness auto
termination
  by (relation "measure (\<lambda>(cur, s). length s)") auto

definition re_split_paragraphs :: "ustr \<Rightarrow> ustr list" where
  "re_split_paragraphs s = re_split_paragraphs_aux [] s"

text \<open>
  \<^verbatim>\<open>re.split(r'(?<=[.!?])\s+', s)\<close>: a match is a maximal run of whitespace that directly
  follows a full stop, an exclamation mark or a question mark.
\<close>

function re_split_sentences_aux :: "ustr \<Rightarrow> ustr \<Rightarrow> ustr list" where
  "re_split_sentences_aux cur [] = [cur]"
| "re_split_sentences_aux cur (c # cs) =
     (if is_space c \<and> cur \<noteq> [] \<and> last cur \<in> {46, 33, 63}
      then cur # re_split_sentences_aux [] (dropWhile is_space cs)
      else re_split_sentences_aux (cur @ [c]) cs)"
  by pat_completeness auto
termination
  by (relation "measure (\<lambda>(cur, s). length s)")
    (auto simp: length_dropWhile_le less_Suc_eq_le)

definition re_split_sentences :: "ustr \<Rightarrow> ustr list" where
  "re_split_sentences s = re_split_sentences_aux [] s"

text \<open>
  \<^verbatim>\<open>s.split(sep)\<close> for a non-empty separator, given as its first character and the rest:
  the call sites pass the literals \<^verbatim>\<open>'\n\n'\<close> and \<^verbatim>\<open>'\n'\<close>.
\<close>

fun str_split_aux :: "nat \<Rightarrow> ustr \<Rightarrow> ustr \<Rightarrow> ustr \<Rightarrow> ustr list" where
  "str_split_aux k ks cur [] = [cur]"
| "str_split_aux k ks cur (c # cs) =
     (if prefix (k # ks) (c # cs)
      then cur # str_split_aux k ks [] (drop (length ks) cs)
      else str_split_aux k ks (cur @ [c]) cs)"

definition str_split :: "nat \<Rightarrow> ustr \<Rightarrow> ustr \<Rightarrow> ustr list" where
  "str_split k ks s = str_split_aux k ks [] s"

text \<open>\<^verbatim>\<open>s.split()\<close>: the maximal runs of non-whitespace characters.\<close>

fun str_words_aux :: "ustr \<Rightarrow> ustr \<Rightarrow> ustr list" where
  "str_words_aux cur [] = (if cur = [] then [] else [cur])"
| "str_words_aux cur (c # cs) =
     (if is_space c
      then (if cur = [] then str_words_aux [] cs else cur # str_words_aux [] cs)
      else str_words_aux (cur @ [c]) cs)"

definition str_words :: "ustr \<Rightarrow> ustr list" where
  "str_words s = str_words_aux [] s"

text \<open>\<^verbatim>\<open>sep.join(parts)\<close>\<close>

fun str_join :: "ustr \<Rightarrow> ustr list \<Rightarrow> ustr" where
  "str_join sep [] = []"
| "str_join sep [w] = w"
| "str_join sep (w # v # ws) = w @ sep @ str_join sep (v # ws)"

section \<open>\<^verbatim>\<open>extract_content_units\<close>\<close>

text \<open>A content unit is the tuple \<^verbatim>\<open>(processed_text, page_number, original_text)\<close>.\<close>

type_synonym content_unit = "ustr \<times> nat \<times> ustr"

text \<open>The inner loop, over the paragraphs of one page.\<close>

fun extract_paragraphs ::
  "(ustr \<Rightarrow> ustr) \<Rightarrow> comparison_config \<Rightarrow> nat \<Rightarrow> ustr list \<Rightarrow> content_unit list
     \<Rightarrow> content_unit list" where
  "extract_paragraphs lower cfg page_num [] content_units = content_units"
| "extract_paragraphs lower cfg page_num (paragraph # paragraphs) content_units =
     (let original = paragraph;
          processed = preprocess_text lower cfg paragraph
      in if processed \<noteq> [] \<and> int (length processed) > min_meaningful_text_length cfg
         then extract_paragraphs lower cfg page_num paragraphs
                (content_units @ [(processed, page_num, original)])
         else extract_paragraphs lower cfg page_num paragraphs content_units)"

text \<open>The outer loop, \<^verbatim>\<open>for page_num, page_text in enumerate(text_by_page)\<close>.\<close>

fun extract_pages ::
  "(ustr \<Rightarrow> ustr) \<Rightarrow> comparison_config \<Rightarrow> nat \<Rightarrow> ustr list \<Rightarrow> content_unit list
     \<Rightarrow> content_unit list" where
  "extract_pages lower cfg page_num [] content_units = content_units"
| "extract_pages lower cfg page_num (page_text # pages) content_units =
     extract_pages lower cfg (Suc page_num) pages
       (extract_paragraphs lower cfg page_num (re_split_paragraphs page_text) content_units)"

definition extract_content_units ::
  "(ustr \<Rightarrow> ustr) \<Rightarrow> comparison_config \<Rightarrow> ustr list \<Rightarrow> content_unit list" where
  "extract_content_units lower cfg text_by_page = extract_pages lower cfg 0 text_by_page []"

section \<open>\<^verbatim>\<open>difflib.SequenceMatcher(None, a, b).ratio()\<close>\<close>

text \<open>
  The standard library's similarity ratio, for the call the program makes: no junk
  predicate, \<^verbatim>\<open>autojunk\<close> left at its default. \<^verbatim>\<open>b2j\<close> maps a character to the ascending
  list of its positions in \<open>b\<close>; when \<open>b\<close> has 200 characters or more, a character that
  occurs more than \<open>len(b) // 100 + 1\<close> times is "popular" and loses its entry.
\<close>

definition b2j :: "ustr \<Rightarrow> nat \<Rightarrow> nat list" where
  "b2j b elt =
     (if length b \<ge> 200 \<and> count_list b elt > length b div 100 + 1 then []
      else filter (\<lambda>j. b ! j = elt) [0..<length b])"

text \<open>
  \<^verbatim>\<open>find_longest_match\<close>: the inner loop over the positions \<open>j\<close> of \<open>a[i]\<close> in \<open>b\<close>
  (\<^verbatim>\<open>continue\<close> below \<open>blo\<close>, \<^verbatim>\<open>break\<close> from \<open>bhi\<close> on), with
  \<^verbatim>\<open>k = newj2len[j] = j2len.get(j-1, 0) + 1\<close>; positions are natural numbers, so the
  key \<open>j - 1\<close> of \<open>j = 0\<close>, which no dictionary holds, is the default \<open>0\<close>.
\<close>

fun flm_inner ::
  "(nat \<rightharpoonup> nat) \<Rightarrow> nat \<Rightarrow> nat \<Rightarrow> nat \<Rightarrow> nat list
     \<Rightarrow> (nat \<rightharpoonup> nat) \<times> nat \<times> nat \<times> nat \<Rightarrow> (nat \<rightharpoonup> nat) \<times> nat \<times> nat \<times> nat" where
  "flm_inner j2len i blo bhi [] st = st"
| "flm_inner j2len i blo bhi (j # js) (newj2len, besti, bestj, bestsize) =
     (if j < blo then flm_inner j2len i blo bhi js (newj2len, besti, bestj, bestsize)
      else if j \<ge> bhi then (newj2len, besti, bestj, bestsize)
      else
        let k = (if j = 0 then 0 else case j2len (j - 1) of None \<Rightarrow> 0 | Some v \<Rightarrow> v) + 1;
            newj2len = newj2len(j \<mapsto> k)
        in if k > bestsize
           then flm_inner j2len i blo bhi js (newj2len, i + 1 - k, j + 1 - k, k)
           else flm_inner j2len i blo bhi js (newj2len, besti, bestj, bestsize))"

text \<open>The outer loop, \<^verbatim>\<open>for i in range(alo, ahi)\<close>.\<close>

fun flm_outer ::
  "ustr \<Rightarrow> ustr \<Rightarrow> nat \<Rightarrow> nat \<Rightarrow> nat list \<Rightarrow> (nat \<rightharpoonup> nat) \<Rightarrow> nat \<times> nat \<times> nat
     \<Rightarrow> nat \<times> nat \<times> nat" where
  "flm_outer a b blo bhi [] j2len best = best"
| "flm_outer a b blo bhi (i # rest) j2len (besti, bestj, bestsize) =
     (case flm_inner j2len i blo bhi (b2j b (a ! i)) (Map.empty, besti, bestj, bestsize) of
        (newj2len, besti, bestj, bestsize) \<Rightarrow>
          flm_outer a b blo bhi rest newj2len (besti, bestj, bestsize))"

text \<open>
  The two loops that extend the best match by equal elements on each end. (The junk set is
  empty without a junk predicate, so the test \<^verbatim>\<open>not isbjunk(...)\<close> is true and the two
  further loops over junk elements never run.)
\<close>

function extend_left :: "ustr \<Rightarrow> ustr \<Rightarrow> nat \<Rightarrow> nat \<Rightarrow> nat \<Rightarrow> nat \<Rightarrow> nat \<Rightarrow> nat \<times> nat \<times> nat" where
  "extend_left a b alo blo besti bestj bestsize =
     (if besti > alo \<and> bestj > blo \<and> a ! (besti - 1) = b ! (bestj - 1)
      then extend_left a b alo blo (besti - 1) (bestj - 1) (bestsize + 1)
      else (besti, bestj, bestsize))"
  by pat_completeness auto
termination
  by (relation "measure (\<lambda>(a, b, alo, blo, besti, bestj, bestsize). besti)") auto

function extend_right :: "ustr \<Rightarrow> ustr \<Rightarrow> nat \<Rightarrow> nat \<Rightarrow> nat \<Rightarrow> nat \<Rightarrow> nat \<Rightarrow> nat \<times> nat \<times> nat" where
  "extend_right a b ahi bhi besti bestj bestsize =
     (if besti + bestsize < ahi \<and> bestj + bestsize < bhi
         \<and> a ! (besti + bestsize) = b ! (bestj + bestsize)
      then extend_right a b ahi bhi besti bestj (bestsize + 1)
      else (besti, bestj, bestsize))"
  by pat_completeness auto
termination
  by (relation "measure (\<lambda>(a, b, ahi, bhi, besti, bestj, bestsize). ahi - (besti + bestsize))") auto

declare extend_left.simps [simp del] extend_right.simps [simp del]

definition find_longest_match ::
  "ustr \<Rightarrow> ustr \<Rightarrow> nat \<Rightarrow> nat \<Rightarrow> nat \<Rightarrow> nat \<Rightarrow> nat \<times> nat \<times> nat" where
  "find_longest_match a b alo ahi blo bhi =
     (case flm_outer a b blo bhi [alo..<ahi] Map.empty (alo, blo, 0) of
        (besti, bestj, bestsize) \<Rightarrow>
          (case extend_left a b alo blo besti bestj bestsize of
             (besti, bestj, bestsize) \<Rightarrow> extend_right a b ahi bhi besti bestj bestsize))"

text \<open>
  The match found lies inside the window it was searched in. This is what makes the
  recursion of \<^verbatim>\<open>get_matching_blocks\<close> terminate.
\<close>

definition row_ok :: "nat \<Rightarrow> nat \<Rightarrow> nat \<Rightarrow> (nat \<rightharpoonup> nat) \<Rightarrow> bool" where
  "row_ok blo bhi d m \<longleftrightarrow>
     (\<forall>j k. m j = Some k \<longrightarrow> blo \<le> j \<and> j < bhi \<and> 1 \<le> k \<and> k \<le> d \<and> k \<le> j + 1 - blo)"

definition best_ok :: "nat \<Rightarrow> nat \<Rightarrow> nat \<Rightarrow> nat \<Rightarrow> nat \<times> nat \<times> nat \<Rightarrow> bool" where
  "best_ok alo ahi blo bhi best \<longleftrightarrow>
     (case best of (besti, bestj, bestsize) \<Rightarrow>
        alo \<le> besti \<and> blo \<le> bestj \<and>
        (bestsize > 0 \<longrightarrow> besti + bestsize \<le> ahi \<and> bestj + bestsize \<le> bhi) \<and>
        (bestsize = 0 \<longrightarrow> besti = alo \<and> bestj = blo))"

lemma flm_inner_ok:
  assumes "row_ok blo bhi (i - alo) j2len" and "alo \<le> i" and "i < ahi"
    and "row_ok blo bhi (i - alo + 1) newj2len" and "best_ok alo ahi blo bhi (besti, bestj, bestsize)"
    and "flm_inner j2len i blo bhi js (newj2len, besti, bestj, bestsize) = (m', best')"
  shows "row_ok blo bhi (i - alo + 1) m' \<and> best_ok alo ahi blo bhi best'"
  using assms(4-6)
proof (induction js arbitrary: newj2len besti bestj bestsize)
  case Nil
  then show ?case by simp
next
  case (Cons j js)
  show ?case
  proof (cases "j < blo")
    case True
    with Cons show ?thesis by simp
  next
    case False
    note nlo = this
    show ?thesis
    proof (cases "j \<ge> bhi")
      case True
      with nlo Cons.prems show ?thesis by simp
    next
      case False
      define k where "k = (if j = 0 then 0 else case j2len (j - 1) of None \<Rightarrow> 0 | Some v \<Rightarrow> v) + 1"
      have k1: "1 \<le> k" by (simp add: k_def)
      have kd: "k \<le> i - alo + 1"
        using assms(1) by (auto simp: k_def row_ok_def split: option.splits)
      have kj: "k \<le> j + 1 - blo"
      proof (cases "j = 0 \<or> j2len (j - 1) = None")
        case True
        with nlo show ?thesis by (auto simp: k_def)
      next
        case False
        then obtain v where v: "j2len (j - 1) = Some v" and j0: "j \<noteq> 0" by auto
        from assms(1) v have "blo \<le> j - 1 \<and> v \<le> (j - 1) + 1 - blo"
          unfolding row_ok_def by blast
        with j0 have "v + 1 \<le> j + 1 - blo" by arith
        with v j0 show ?thesis by (simp add: k_def)
      qed
      have row: "row_ok blo bhi (i - alo + 1) (newj2len(j \<mapsto> k))"
        using Cons.prems(1) nlo False k1 kd kj by (auto simp: row_ok_def)
      show ?thesis
      proof (cases "k > bestsize")
        case True
        have bk: "best_ok alo ahi blo bhi (i + 1 - k, j + 1 - k, k)"
          using kd kj k1 assms(2,3) nlo False by (auto simp: best_ok_def)
        have "flm_inner j2len i blo bhi (j # js) (newj2len, besti, bestj, bestsize) =
            flm_inner j2len i blo bhi js (newj2len(j \<mapsto> k), i + 1 - k, j + 1 - k, k)"
          using nlo False True by (simp add: k_def Let_def)
        with Cons.prems(3)
        have "flm_inner j2len i blo bhi js (newj2len(j \<mapsto> k), i + 1 - k, j + 1 - k, k) = (m', best')"
          by simp
        then show ?thesis by (rule Cons.IH[OF row bk])
      next
        case nb: False
        have "flm_inner j2len i blo bhi (j # js) (newj2len, besti, bestj, bestsize) =
            flm_inner j2len i blo bhi js (newj2len(j \<mapsto> k), besti, bestj, bestsize)"
          using nlo False nb by (simp add: k_def Let_def)
        with Cons.prems(3)
        have "flm_inner j2len i blo bhi js (newj2len(j \<mapsto> k), besti, bestj, bestsize) = (m', best')"
          by simp
        then show ?thesis by (rule Cons.IH[OF row Cons.prems(2)])
      qed
    qed
  qed
qed

lemma flm_outer_ok:
  assumes "row_ok blo bhi (i - alo) j2len" and "alo \<le> i"
    and "best_ok alo ahi blo bhi best"
  shows "best_ok alo ahi blo bhi (flm_outer a b blo bhi [i..<ahi] j2len best)"
  using assms
proof (induction "ahi - i" arbitrary: i j2len best)
  case 0
  then show ?case by simp
next
  case (Suc n)
  then have lt: "i < ahi" by simp
  obtain besti bestj bestsize where best: "best = (besti, bestj, bestsize)"
    by (cases best) auto
  obtain m' best' where inner:
    "flm_inner j2len i blo bhi (b2j b (a ! i)) (Map.empty, besti, bestj, bestsize) = (m', best')"
    by (cases "flm_inner j2len i blo bhi (b2j b (a ! i)) (Map.empty, besti, bestj, bestsize)") auto
  have e: "row_ok blo bhi (i - alo + 1) Map.empty" by (simp add: row_ok_def)
  from flm_inner_ok[OF Suc.prems(1) Suc.prems(2) lt e Suc.prems(3)[unfolded best] inner]
  have row': "row_ok blo bhi (i - alo + 1) m'" and best': "best_ok alo ahi blo bhi best'"
    by auto
  have d: "Suc i - alo = i - alo + 1" using Suc.prems(2) by simp
  have n: "n = ahi - Suc i" using Suc.hyps(2) by simp
  have "best_ok alo ahi blo bhi (flm_outer a b blo bhi [Suc i..<ahi] m' best')"
    using Suc.hyps(1)[OF n _ _ best', of m'] row' d Suc.prems(2) by simp
  moreover have "flm_outer a b blo bhi [i..<ahi] j2len best =
      flm_outer a b blo bhi [Suc i..<ahi] m' best'"
    using lt inner by (cases best') (simp add: upt_conv_Cons best)
  ultimately show ?case by simp
qed

lemma extend_left_ok:
  "best_ok alo ahi blo bhi (besti, bestj, bestsize) \<Longrightarrow>
   best_ok alo ahi blo bhi (extend_left a b alo blo besti bestj bestsize)"
proof (induction a b alo blo besti bestj bestsize rule: extend_left.induct)
  case (1 a b alo blo besti bestj bestsize)
  show ?case
  proof (cases "besti > alo \<and> bestj > blo \<and> a ! (besti - 1) = b ! (bestj - 1)")
    case True
    have "best_ok alo ahi blo bhi (besti - 1, bestj - 1, bestsize + 1)"
      using 1(2) True by (auto simp: best_ok_def)
    moreover from True have "extend_left a b alo blo besti bestj bestsize =
        extend_left a b alo blo (besti - 1) (bestj - 1) (bestsize + 1)"
      by (subst extend_left.simps) simp
    ultimately show ?thesis using 1(1)[OF True] by simp
  next
    case False
    then have "extend_left a b alo blo besti bestj bestsize = (besti, bestj, bestsize)"
      by (subst extend_left.simps) (simp only: if_False)
    with 1(2) show ?thesis by simp
  qed
qed

lemma extend_right_ok:
  "best_ok alo ahi blo bhi (besti, bestj, bestsize) \<Longrightarrow>
   best_ok alo ahi blo bhi (extend_right a b ahi bhi besti bestj bestsize)"
proof (induction a b ahi bhi besti bestj bestsize rule: extend_right.induct)
  case (1 a b ahi bhi besti bestj bestsize)
  show ?case
  proof (cases "besti + bestsize < ahi \<and> bestj + bestsize < bhi
         \<and> a ! (besti + bestsize) = b ! (bestj + bestsize)")
    case True
    have "best_ok alo ahi blo bhi (besti, bestj, bestsize + 1)"
      using 1(2) True by (auto simp: best_ok_def)
    moreover from True have "extend_right a b ahi bhi besti bestj bestsize =
        extend_right a b ahi bhi besti bestj (bestsize + 1)"
      by (subst extend_right.simps) simp
    ultimately show ?thesis using 1(1)[OF True] by simp
  next
    case False
    then have "extend_right a b ahi bhi besti bestj bestsize = (besti, bestj, bestsize)"
      by (subst extend_right.simps) (simp only: if_False)
    with 1(2) show ?thesis by simp
  qed
qed

lemma find_longest_match_ok:
  "best_ok alo ahi blo bhi (find_longest_match a b alo ahi blo bhi)"
proof -
  have e: "row_ok blo bhi (alo - alo) Map.empty" by (simp add: row_ok_def)
  have i: "best_ok alo ahi blo bhi (alo, blo, 0)" by (simp add: best_ok_def)
  have o: "best_ok alo ahi blo bhi (flm_outer a b blo bhi [alo..<ahi] Map.empty (alo, blo, 0))"
    by (rule flm_outer_ok[OF e le_refl i])
  obtain i1 j1 k1 where r1: "flm_outer a b blo bhi [alo..<ahi] Map.empty (alo, blo, 0) = (i1, j1, k1)"
    by (cases "flm_outer a b blo bhi [alo..<ahi] Map.empty (alo, blo, 0)") auto
  obtain i2 j2 k2 where r2: "extend_left a b alo blo i1 j1 k1 = (i2, j2, k2)"
    by (cases "extend_left a b alo blo i1 j1 k1") auto
  have "best_ok alo ahi blo bhi (i2, j2, k2)"
    using extend_left_ok[of alo ahi blo bhi i1 j1 k1 a b] o r1 r2 by simp
  then have "best_ok alo ahi blo bhi (extend_right a b ahi bhi i2 j2 k2)"
    by (rule extend_right_ok)
  then show ?thesis by (simp add: find_longest_match_def r1 r2)
qed

lemma find_longest_match_bounds:
  "find_longest_match a b alo ahi blo bhi = (i, j, k) \<Longrightarrow>
   alo \<le> i \<and> blo \<le> j \<and> (k > 0 \<longrightarrow> i + k \<le> ahi \<and> j + k \<le> bhi)"
  using find_longest_match_ok[of alo ahi blo bhi a b] by (simp add: best_ok_def)

text \<open>
  \<^verbatim>\<open>get_matching_blocks\<close> takes windows from a work list: it records the longest match of a
  window and, where both sides are non-empty, adds the window to its left and the window to
  its right. \<^verbatim>\<open>ratio\<close> only sums the sizes of the recorded blocks, a sum that does not
  depend on the order in which the windows are taken; the model computes it by recursion
  on the window.
\<close>

function matching_total :: "ustr \<Rightarrow> ustr \<Rightarrow> nat \<Rightarrow> nat \<Rightarrow> nat \<Rightarrow> nat \<Rightarrow> nat" where
  "matching_total a b alo ahi blo bhi =
     (case find_longest_match a b alo ahi blo bhi of
        (i, j, k) \<Rightarrow>
          if k = 0 then 0
          else k + (if alo < i \<and> blo < j then matching_total a b alo i blo j else 0)
                 + (if i + k < ahi \<and> j + k < bhi
                    then matching_total a b (i + k) ahi (j + k) bhi else 0))"
  by pat_completeness auto
termination
  apply (relation "measure (\<lambda>(a, b, alo, ahi, blo, bhi). ahi - alo)")
    apply simp
   apply (auto dest!: find_longest_match_bounds[OF sym])
  done

declare matching_total.simps [simp del]

text \<open>
  \<^verbatim>\<open>ratio\<close>, that is \<^verbatim>\<open>_calculate_ratio(matches, len(a) + len(b))\<close>: \<open>2.0 * matches / length\<close>,
  and \<open>1.0\<close> when both sequences are empty. The float is modelled by the real number it
  rounds.
\<close>

definition SequenceMatcher_ratio :: "ustr \<Rightarrow> ustr \<Rightarrow> real" where
  "SequenceMatcher_ratio a b =
     (let matches = matching_total a b 0 (length a) 0 (length b);
          length = length a + length b
      in if length \<noteq> 0 then 2 * real matches / real length else 1)"

section \<open>\<^verbatim>\<open>compare_content_units\<close>\<close>

text \<open>
  The similarity of two texts is \<^verbatim>\<open>difflib.SequenceMatcher(None, old, new).ratio()\<close>. The
  matcher takes it as a parameter \<open>ratio\<close>, so that what is proved of the matching holds
  for the library's ratio (\<open>SequenceMatcher_ratio\<close> above) and does not depend on how the
  library computes it. Floats are modelled by real numbers; the literals \<open>0.92\<close> and
  \<open>0.7\<close> are the reals \<open>92/100\<close> and \<open>7/10\<close>.
\<close>

type_synonym matched_pair = "content_unit \<times> content_unit \<times> real"

text \<open>
  The inner loop \<^verbatim>\<open>for j, (new_text, new_page, new_original) in enumerate(unmatched_new)\<close>,
  from position \<open>j\<close> on. It returns \<open>Some (j, similarity)\<close> where the loop reaches
  \<^verbatim>\<open>break\<close> (\<open>found_match\<close> set), \<open>None\<close> where it runs to the end, together with
  \<open>best_match_idx\<close> and \<open>best_similarity\<close>.
\<close>

fun scan_unmatched_new ::
  "(ustr \<Rightarrow> ustr \<Rightarrow> real) \<Rightarrow> comparison_config \<Rightarrow> ustr \<Rightarrow> nat \<Rightarrow> content_unit list
     \<Rightarrow> int \<times> real \<Rightarrow> (nat \<times> real) option \<times> int \<times> real" where
  "scan_unmatched_new ratio cfg old_text j [] (best_match_idx, best_similarity) =
     (None, best_match_idx, best_similarity)"
| "scan_unmatched_new ratio cfg old_text j ((new_text, new_page, new_original) # rest)
       (best_match_idx, best_similarity) =
     (let similarity = ratio old_text new_text;
          (best_match_idx, best_similarity) =
             (if similarity > best_similarity then (int j, similarity)
              else (best_match_idx, best_similarity))
      in if similarity \<ge> exact_match_threshold cfg
         then (Some (j, similarity), best_match_idx, best_similarity)
         else scan_unmatched_new ratio cfg old_text (Suc j) rest
                (best_match_idx, best_similarity))"

text \<open>The containers the outer loop updates.\<close>

record match_state =
  removed :: "content_unit list"
  matched_pairs :: "matched_pair list"
  unmatched_new :: "content_unit list"
  old_matched :: "bool list"

text \<open>
  One iteration of \<^verbatim>\<open>for i, (old_text, old_page, old_original) in enumerate(old_units)\<close>;
  \<open>old_unit\<close> is \<^verbatim>\<open>old_units[i]\<close>. \<^verbatim>\<open>unmatched_new.pop(j)\<close> removes position \<open>j\<close>.
\<close>

definition match_old_unit ::
  "(ustr \<Rightarrow> ustr \<Rightarrow> real) \<Rightarrow> comparison_config \<Rightarrow> nat \<Rightarrow> content_unit \<Rightarrow> match_state
     \<Rightarrow> match_state" where
  "match_old_unit ratio cfg i old_unit st =
     (case old_unit of (old_text, old_page, old_original) \<Rightarrow>
        (case scan_unmatched_new ratio cfg old_text 0 (unmatched_new st) (- 1, 0) of
           (Some (j, similarity), best_match_idx, best_similarity) \<Rightarrow>
             st\<lparr> old_matched := (old_matched st)[i := True],
                 matched_pairs := matched_pairs st @ [(old_unit, unmatched_new st ! j, similarity)],
                 unmatched_new := take j (unmatched_new st) @ drop (Suc j) (unmatched_new st) \<rparr>
         | (None, best_match_idx, best_similarity) \<Rightarrow>
             if best_match_idx \<ge> 0 \<and> best_similarity > 7 / 10
             then st\<lparr> matched_pairs := matched_pairs st @
                        [(old_unit, unmatched_new st ! nat best_match_idx, best_similarity)],
                      removed := removed st @ [(old_text, old_page, old_original)] \<rparr>
             else st\<lparr> removed := removed st @ [(old_text, old_page, old_original)] \<rparr>))"

fun match_loop ::
  "(ustr \<Rightarrow> ustr \<Rightarrow> real) \<Rightarrow> comparison_config \<Rightarrow> nat \<Rightarrow> content_unit list \<Rightarrow> match_state
     \<Rightarrow> match_state" where
  "match_loop ratio cfg i [] st = st"
| "match_loop ratio cfg i (old_unit # rest) st =
     match_loop ratio cfg (Suc i) rest (match_old_unit ratio cfg i old_unit st)"

text \<open>The state after the first pass, from the initial containers.\<close>

definition match_units ::
  "(ustr \<Rightarrow> ustr \<Rightarrow> real) \<Rightarrow> comparison_config \<Rightarrow> content_unit list \<Rightarrow> content_unit list
     \<Rightarrow> match_state" where
  "match_units ratio cfg old_units new_units =
     match_loop ratio cfg 0 old_units
       \<lparr> removed = [], matched_pairs = [], unmatched_new = new_units,
         old_matched = replicate (length old_units) False \<rparr>"

record similarity_scores =
  avg_content_similarity :: real
  document_similarity :: real
  retention_rate :: real
  text_similarity :: real
  matched_content_pairs :: "matched_pair list"

definition compare_content_units ::
  "(ustr \<Rightarrow> ustr \<Rightarrow> real) \<Rightarrow> comparison_config \<Rightarrow> content_unit list \<Rightarrow> content_unit list
     \<Rightarrow> content_unit list \<times> content_unit list \<times> similarity_scores" where
  "compare_content_units ratio cfg old_units new_units =
     (let st = match_units ratio cfg old_units new_units;
          removed = removed st;
          matched_pairs = matched_pairs st;
          added = unmatched_new st;
          total_old_content = length old_units;
          total_new_content = length new_units;
          matched_content = length matched_pairs;
          total_similarity = sum_list (map (\<lambda>(old_unit, new_unit, sim). sim) matched_pairs);
          avg_similarity =
            (if matched_pairs \<noteq> [] then total_similarity / real (length matched_pairs) else 0);
          doc_similarity =
            (if total_old_content > 0 \<and> total_new_content > 0
             then (let common_elements = int matched_content;
                       total_elements = int total_old_content + int total_new_content - common_elements
                   in if total_elements > 0
                      then (real_of_int common_elements / real_of_int total_elements) * 100
                      else 0)
             else 0);
          retention_rate =
            (if total_old_content > 0
             then (real_of_int (int total_old_content - int (length removed)) / real total_old_content) * 100
             else 0);
          all_old_text = str_join [32] (map fst old_units);
          all_new_text = str_join [32] (map fst new_units);
          text_similarity = ratio all_old_text all_new_text * 100
      in (removed, added,
          \<lparr> avg_content_similarity = avg_similarity * 100,
            document_similarity = doc_similarity,
            retention_rate = retention_rate,
            text_similarity = text_similarity,
            matched_content_pairs = matched_pairs \<rparr>))"

text \<open>
  Units for concrete runs. The old unit \<open>The quick brown fox jumps\<close> and a second old
  unit, in front of three new units: one without a character in common with them, a copy
  that differs in the last letter, and an exact copy of the first old unit.
\<close>

definition jumps_old_units :: "content_unit list" where
  "jumps_old_units =
     [(ascii ''the quick brown fox jumps'', 0, ascii ''The quick brown fox jumps''),
      (ascii ''the quick brown fox jumpz'', 1, ascii ''The quick brown fox jumpz'')]"

definition jumps_new_units :: "content_unit list" where
  "jumps_new_units =
     [(ascii ''1234567890123456'', 0, ascii ''1234567890123456''),
      (ascii ''the quick brown fox jumpz'', 0, ascii ''The quick brown fox jumpz''),
      (ascii ''the quick brown fox jumps'', 2, ascii ''The quick brown fox jumps'')]"

text \<open>
  The old units \<open>The quick brown dog\<close> and \<open>The quick brown fox\<close> in front of the new
  units \<open>The quick brown cat\<close> and \<open>The quick brown fox\<close>.
\<close>

definition dog_old_units :: "content_unit list" where
  "dog_old_units =
     [(ascii ''the quick brown dog'', 0, ascii ''The quick brown dog''),
      (ascii ''the quick brown fox'', 1, ascii ''The quick brown fox'')]"

definition dog_new_units :: "content_unit list" where
  "dog_new_units =
     [(ascii ''the quick brown cat'', 0, ascii ''The quick brown cat''),
      (ascii ''the quick brown fox'', 0, ascii ''The quick brown fox'')]"

section \<open>\<^verbatim>\<open>find_text_on_page\<close> and \<^verbatim>\<open>highlight_text_on_page\<close>\<close>

text \<open>
  A page of the document backend, as far as the two functions use it: \<open>search\<close> is what
  \<^verbatim>\<open>page.search_for\<close> returns for a query (the page text does not change during a run),
  \<open>queries\<close> records the queries submitted, in order, and \<open>annots\<close> the highlight
  annotations added, in order. An annotation keeps its rectangle, and the stroke colour
  and opacity where the code sets them.
\<close>

record 'r annot =
  rect :: 'r
  stroke :: "(nat \<times> nat \<times> nat) option"
  opacity :: "real option"

record 'r page =
  search :: "ustr \<Rightarrow> 'r list"
  queries :: "ustr list"
  annots :: "'r annot list"

definition search_for :: "'r page \<Rightarrow> ustr \<Rightarrow> 'r list \<times> 'r page" where
  "search_for page q = (search page q, page\<lparr>queries := queries page @ [q]\<rparr>)"

text \<open>
  \<^verbatim>\<open>page.add_highlight_annot(rect)\<close> followed by the colour branch and
  \<^verbatim>\<open>highlight.update()\<close>; any colour other than \<open>red\<close> and \<open>green\<close> leaves the
  annotation as created.
\<close>

definition add_highlight_annot :: "'r page \<Rightarrow> 'r \<Rightarrow> string \<Rightarrow> 'r page" where
  "add_highlight_annot page r color =
     (let highlight = \<lparr>rect = r, stroke = None, opacity = None\<rparr>;
          highlight =
            (if color = ''red'' then highlight\<lparr>stroke := Some (1, 0, 0), opacity := Some (1 / 2)\<rparr>
             else if color = ''green'' then highlight\<lparr>stroke := Some (0, 1, 0), opacity := Some (1 / 2)\<rparr>
             else highlight)
      in page\<lparr>annots := annots page @ [highlight]\<rparr>)"

text \<open>The only exception the two functions can raise themselves.\<close>

datatype error = ValueError

text \<open>The sentence loop of the paragraph tier.\<close>

fun search_sentences ::
  "comparison_config \<Rightarrow> 'r page \<Rightarrow> ustr list \<Rightarrow> 'r list \<Rightarrow> 'r list \<times> 'r page" where
  "search_sentences cfg page [] instances = (instances, page)"
| "search_sentences cfg page (s # sentences) instances =
     (let sentence = strip s;
          min_length = min_meaningful_text_length cfg
      in if int (length sentence) > min_length
         then (case search_for page sentence of
                 (sentence_instances, page) \<Rightarrow>
                   search_sentences cfg page sentences (instances @ sentence_instances))
         else search_sentences cfg page sentences instances)"

text \<open>The paragraph loop.\<close>

fun search_paragraphs ::
  "comparison_config \<Rightarrow> 'r page \<Rightarrow> ustr list \<Rightarrow> 'r list \<Rightarrow> 'r list \<times> 'r page" where
  "search_paragraphs cfg page [] instances = (instances, page)"
| "search_paragraphs cfg page (p # paragraphs) instances =
     (let paragraph = strip p
      in if paragraph = [] then search_paragraphs cfg page paragraphs instances
         else (case search_for page paragraph of
                 (paragraph_instances, page) \<Rightarrow>
                   if paragraph_instances \<noteq> []
                   then search_paragraphs cfg page paragraphs (instances @ paragraph_instances)
                   else (case search_sentences cfg page (re_split_sentences paragraph) instances of
                           (instances, page) \<Rightarrow> search_paragraphs cfg page paragraphs instances)))"

text \<open>
  \<^verbatim>\<open>range(0, n, step)\<close> for a positive step, from \<open>i\<close> on. (A zero step raises
  \<^verbatim>\<open>ValueError\<close> and a negative one gives the empty range; \<open>fuzzy_chunks\<close> decides.)
\<close>

function py_range :: "nat \<Rightarrow> nat \<Rightarrow> nat \<Rightarrow> nat list" where
  "py_range i n step =
     (if 0 < step \<and> i < n then i # py_range (i + step) n step else [])"
  by pat_completeness auto
termination
  by (relation "measure (\<lambda>(i, n, step). n - i)") auto

declare py_range.simps [simp del]

text \<open>
  The list comprehension
  \<^verbatim>\<open>[' '.join(words[i:i + chunk_size]) for i in range(0, len(words), chunk_size)
     if i + chunk_size <= len(words)]\<close>.
\<close>

definition fuzzy_chunks :: "ustr list \<Rightarrow> int \<Rightarrow> error + ustr list" where
  "fuzzy_chunks words chunk_size =
     (if chunk_size = 0 then Inl ValueError
      else if chunk_size < 0 then Inr []
      else Inr (map (\<lambda>i. str_join [32] (take (nat chunk_size) (drop i words)))
                  (filter (\<lambda>i. i + nat chunk_size \<le> length words)
                     (py_range 0 (length words) (nat chunk_size)))))"

text \<open>The loop \<^verbatim>\<open>for chunk in chunks\<close>.\<close>

fun search_chunks ::
  "comparison_config \<Rightarrow> 'r page \<Rightarrow> ustr list \<Rightarrow> 'r list \<Rightarrow> 'r list \<times> 'r page" where
  "search_chunks cfg page [] instances = (instances, page)"
| "search_chunks cfg page (chunk # chunks) instances =
     (if int (length chunk) > min_meaningful_text_length cfg
      then (case search_for page chunk of
              (chunk_instances, page) \<Rightarrow> search_chunks cfg page chunks (instances @ chunk_instances))
      else search_chunks cfg page chunks instances)"

text \<open>
  The sentence loop of the fuzzy tier. (\<open>min_length\<close> is the variable the paragraph tier
  assigned; the tier is reached only after a paragraph was searched and not found, which
  runs the sentence loop at least once, so the variable is bound.)
\<close>

fun search_fuzzy ::
  "comparison_config \<Rightarrow> 'r page \<Rightarrow> ustr list \<Rightarrow> 'r list \<Rightarrow> error + ('r list \<times> 'r page)" where
  "search_fuzzy cfg page [] instances = Inr (instances, page)"
| "search_fuzzy cfg page (s # sentences) instances =
     (let sentence = strip s
      in if length sentence > 20
         then (let words = str_words sentence;
                   chunk_size = fuzzy_chunk_size cfg
               in case fuzzy_chunks words chunk_size of
                    Inl e \<Rightarrow> Inl e
                  | Inr chunks \<Rightarrow>
                      (case search_chunks cfg page chunks instances of
                         (instances, page) \<Rightarrow> search_fuzzy cfg page sentences instances))
         else search_fuzzy cfg page sentences instances)"

definition find_text_on_page ::
  "comparison_config \<Rightarrow> 'r page \<Rightarrow> ustr \<Rightarrow> bool \<Rightarrow> error + ('r list \<times> 'r page)" where
  "find_text_on_page cfg page text0 fuzzy =
     (let text = strip text0
      in if text = [] then Inr ([], page)
         else (case search_for page text of
                 (whole_text_instances, page) \<Rightarrow>
                   if whole_text_instances \<noteq> [] then Inr (whole_text_instances, page)
                   else (case search_paragraphs cfg page (str_split 10 [10] text) [] of
                           (instances, page) \<Rightarrow>
                             if fuzzy \<and> instances = []
                             then search_fuzzy cfg page (re_split_sentences text) instances
                             else Inr (instances, page))))"

text \<open>
  The loop \<^verbatim>\<open>for rect in line_instances\<close> of the line fallback, with its
  \<^verbatim>\<open>return True\<close> inside the loop body: \<open>Some True\<close> is that return, \<open>None\<close> the end of
  the loop.
\<close>

fun highlight_line_instances ::
  "'r page \<Rightarrow> 'r list \<Rightarrow> 'r list \<Rightarrow> string \<Rightarrow> bool option \<times> 'r page" where
  "highlight_line_instances page line_instances [] color = (None, page)"
| "highlight_line_instances page line_instances (r # rects) color =
     (let page = add_highlight_annot page r color
      in if length line_instances > 0 then (Some True, page)
         else highlight_line_instances page line_instances rects color)"

text \<open>The loop \<^verbatim>\<open>for line in lines\<close>; falling out of it the function returns \<open>False\<close>.\<close>

fun highlight_lines ::
  "comparison_config \<Rightarrow> 'r page \<Rightarrow> ustr list \<Rightarrow> string \<Rightarrow> bool \<times> 'r page" where
  "highlight_lines cfg page [] color = (False, page)"
| "highlight_lines cfg page (l # lines) color =
     (let line = strip l;
          min_length = min_meaningful_text_length cfg
      in if int (length line) > min_length
         then (case search_for page line of
                 (line_instances, page) \<Rightarrow>
                   (case highlight_line_instances page line_instances line_instances color of
                      (Some b, page) \<Rightarrow> (b, page)
                    | (None, page) \<Rightarrow> highlight_lines cfg page lines color))
         else highlight_lines cfg page lines color)"

text \<open>The loop \<^verbatim>\<open>for rect in instances\<close> of the other branch.\<close>

fun highlight_instances :: "'r page \<Rightarrow> 'r list \<Rightarrow> string \<Rightarrow> 'r page" where
  "highlight_instances page [] color = page"
| "highlight_instances page (r # rects) color =
     highlight_instances (add_highlight_annot page r color) rects color"

definition highlight_text_on_page ::
  "comparison_config \<Rightarrow> 'r page \<Rightarrow> ustr \<Rightarrow> string \<Rightarrow> bool \<Rightarrow> error + (bool \<times> 'r page)" where
  "highlight_text_on_page cfg page text0 color fuzzy =
     (if strip text0 = [] then Inr (False, page)
      else (case find_text_on_page cfg page text0 fuzzy of
              Inl e \<Rightarrow> Inl e
            | Inr (instances, page) \<Rightarrow>
                if instances = [] then Inr (highlight_lines cfg page (str_split 10 [] text0) color)
                else Inr (True, highlight_instances page instances color)))"

text \<open>
  Two pages for concrete runs, with natural numbers naming the rectangles: one on which
  no search finds anything, and one on which exactly the query \<open>Second line of text\<close>
  is found, at the two rectangles \<open>1\<close> and \<open>2\<close>.
\<close>

definition blank_page :: "nat page" where
  "blank_page = \<lparr>search = (\<lambda>q. []), queries = [], annots = []\<rparr>"

definition second_line_page :: "nat page" where
  "second_line_page =
     \<lparr>search = (\<lambda>q. if q = ascii ''Second line of text'' then [1, 2] else []),
      queries = [], annots = []\<rparr>"

section \<open>Auxiliary notions for the proofs\<close>

text \<open>
  A string is whitespace-normal when its only whitespace characters are single spaces,
  no two of them adjacent.
\<close>

fun ws_normal :: "ustr \<Rightarrow> bool" where
  "ws_normal [] = True"
| "ws_normal [c] = (is_space c \<longrightarrow> c = 32)"
| "ws_normal (c # d # cs) = ((is_space c \<longrightarrow> c = 32 \<and> \<not> is_space d) \<and> ws_normal (d # cs))"

text \<open>The single-character keys of the replacement table.\<close>

definition replaced_chars :: "nat set" where
  "replaced_chars = {64257, 64258, 64256, 64259, 64260, 8211, 8212, 8722, 8230, 8203, 8204, 8205, 65279}"

text \<open>The enhanced branch of \<^verbatim>\<open>preprocess_text\<close>, as one composition.\<close>

definition enhanced :: "(ustr \<Rightarrow> ustr) \<Rightarrow> ustr \<Rightarrow> ustr" where
  "enhanced lower x =
     strip (re_sub_ws (re_sub_punct (re_sub_ws (apply_replacements replacements (lower x)))))"

text \<open>
  The matched pairs recorded by a threshold match: a pair recorded as a partial match has a
  similarity below the threshold, one recorded at the \<^verbatim>\<open>break\<close> has a similarity at or
  above it.
\<close>

definition consumed :: "comparison_config \<Rightarrow> matched_pair list \<Rightarrow> matched_pair list" where
  "consumed cfg pairs = filter (\<lambda>(old_unit, new_unit, sim). exact_match_threshold cfg \<le> sim) pairs"

text \<open>
  The invariant of the outer loop after the old units \<open>done_units\<close> have been processed,
  \<open>todo\<close> being the number of old units still to come.
\<close>

definition loop_inv ::
  "(ustr \<Rightarrow> ustr \<Rightarrow> real) \<Rightarrow> comparison_config \<Rightarrow> content_unit list \<Rightarrow> content_unit list
     \<Rightarrow> nat \<Rightarrow> match_state \<Rightarrow> bool" where
  "loop_inv ratio cfg new_units done_units todo st \<longleftrightarrow>
     length (old_matched st) = length done_units + todo \<and>
     (\<forall>k. length done_units \<le> k \<and> k < length (old_matched st) \<longrightarrow> \<not> old_matched st ! k) \<and>
     removed st = map fst (filter (\<lambda>(u, m). \<not> m) (zip done_units (old_matched st))) \<and>
     map fst (consumed cfg (matched_pairs st)) =
       map fst (filter (\<lambda>(u, m). m) (zip done_units (old_matched st))) \<and>
     mset (map (\<lambda>(old_unit, new_unit, sim). new_unit) (consumed cfg (matched_pairs st)))
       + mset (unmatched_new st) = mset new_units \<and>
     length (matched_pairs st) \<le> length done_units \<and>
     (\<forall>(old_unit, new_unit, sim) \<in> set (matched_pairs st). \<exists>a b. sim = ratio a b)"

text \<open>
  The containers as \<^verbatim>\<open>compare_content_units\<close> initialises them, and the loop state after
  the first \<open>k\<close> old units have been processed.
\<close>

definition init_state :: "content_unit list \<Rightarrow> content_unit list \<Rightarrow> match_state" where
  "init_state old_units new_units =
     \<lparr> removed = [], matched_pairs = [], unmatched_new = new_units,
       old_matched = replicate (length old_units) False \<rparr>"

definition state_after ::
  "(ustr \<Rightarrow> ustr \<Rightarrow> real) \<Rightarrow> comparison_config \<Rightarrow> content_unit list \<Rightarrow> content_unit list
     \<Rightarrow> nat \<Rightarrow> match_state" where
  "state_after ratio cfg old_units new_units k =
     match_loop ratio cfg 0 (take k old_units) (init_state old_units new_units)"

text \<open>
  What later iterations can do to a loop state: the unmatched-new list only loses
  elements, pairs and removed units are only appended, every pair appended takes its new
  unit from the unmatched-new list of the earlier state, and the elements that left the
  list are the new units of the threshold matches appended.
\<close>

definition extends :: "comparison_config \<Rightarrow> match_state \<Rightarrow> match_state \<Rightarrow> bool" where
  "extends cfg st st' \<longleftrightarrow>
     subseq (unmatched_new st') (unmatched_new st) \<and>
     (\<exists>A. matched_pairs st' = matched_pairs st @ A \<and>
          (\<forall>p \<in> set A. fst (snd p) \<in> set (unmatched_new st)) \<and>
          mset (unmatched_new st) =
            mset (unmatched_new st') + mset (map (\<lambda>(old_unit, new_unit, sim). new_unit) (consumed cfg A))) \<and>
     (\<exists>R. removed st' = removed st @ R)"

section \<open>Text normalisation\<close>

lemma is_space_32: "is_space 32"
  by (simp add: is_space_def)

lemma ws_normal_Cons_nonspace: "\<not> is_space c \<Longrightarrow> ws_normal (c # r) = ws_normal r"
  by (cases r) auto

lemma re_sub_ws_hd_nonspace:
  "\<not> is_space d \<Longrightarrow> re_sub_ws (d # ds) = d # re_sub_ws ds"
  by simp

lemma ws_normal_re_sub_ws: "ws_normal (re_sub_ws s)"
proof (induction s rule: re_sub_ws.induct)
  case 1
  show ?case by simp
next
  case (2 c cs)
  show ?case
  proof (cases "is_space c")
    case True
    note sp = this
    show ?thesis
    proof (cases "dropWhile is_space cs")
      case Nil
      with sp have "re_sub_ws (c # cs) = [32]" by (simp only: re_sub_ws.simps if_True)
      then show ?thesis by (simp add: is_space_32)
    next
      case (Cons d ds)
      then have nd: "\<not> is_space d"
        by (metis hd_dropWhile list.sel(1) list.distinct(1))
      from 2(1)[OF sp] Cons nd have "ws_normal (d # re_sub_ws ds)" by simp
      with sp Cons nd show ?thesis by simp
    qed
  next
    case False
    with 2(2) show ?thesis by (simp add: ws_normal_Cons_nonspace)
  qed
qed

lemma re_sub_ws_id: "ws_normal s \<Longrightarrow> re_sub_ws s = s"
  by (induction s rule: ws_normal.induct) auto

lemma ws_normal_append: "ws_normal (xs @ ys) \<Longrightarrow> ws_normal xs \<and> ws_normal ys"
proof (induction xs rule: ws_normal.induct)
  case 1
  then show ?case by simp
next
  case (2 c)
  then show ?case by (cases ys) auto
next
  case (3 c d cs)
  then show ?case by auto
qed

lemma ws_normal_dropWhile: "ws_normal s \<Longrightarrow> ws_normal (dropWhile P s)"
  using ws_normal_append[of "takeWhile P s" "dropWhile P s"] by simp

lemma rstrip_prefix: "s = rev (dropWhile P (rev s)) @ rev (takeWhile P (rev s))"
proof -
  have "s = rev (takeWhile P (rev s) @ dropWhile P (rev s))" by simp
  also have "\<dots> = rev (dropWhile P (rev s)) @ rev (takeWhile P (rev s))" by (rule rev_append)
  finally show ?thesis .
qed

lemma ws_normal_rstrip: "ws_normal s \<Longrightarrow> ws_normal (rev (dropWhile P (rev s)))"
  using ws_normal_append[of "rev (dropWhile P (rev s))" "rev (takeWhile P (rev s))"]
    rstrip_prefix[of s P] by simp

lemma ws_normal_strip: "ws_normal s \<Longrightarrow> ws_normal (strip s)"
  unfolding strip_def by (intro ws_normal_rstrip ws_normal_dropWhile)

lemma dropWhile_rstrip:
  "dropWhile P (rev (dropWhile P (rev (dropWhile P s)))) = rev (dropWhile P (rev (dropWhile P s)))"
proof -
  define u where "u = dropWhile P s"
  define p where "p = rev (dropWhile P (rev u))"
  define r where "r = rev (takeWhile P (rev u))"
  have up: "u = p @ r"
    unfolding p_def r_def by (rule rstrip_prefix)
  have "dropWhile P p = p"
  proof (cases p)
    case Nil
    then show ?thesis by simp
  next
    case (Cons a as)
    with up have "u \<noteq> []" and "hd u = a" by auto
    then have "\<not> P a" unfolding u_def using hd_dropWhile by metis
    with Cons show ?thesis by simp
  qed
  then show ?thesis unfolding p_def u_def .
qed

lemma strip_strip: "strip (strip s) = strip s"
  unfolding strip_def by (simp add: dropWhile_rstrip)

lemma set_strip: "set (strip s) \<subseteq> set s"
proof -
  have "set (strip s) \<subseteq> set (dropWhile is_space s)"
    unfolding strip_def using set_dropWhileD by fastforce
  also have "\<dots> \<subseteq> set s" using set_dropWhileD by fastforce
  finally show ?thesis .
qed

lemma set_re_sub_ws: "set (re_sub_ws s) \<subseteq> insert 32 (set s)"
proof (induction s rule: re_sub_ws.induct)
  case 1
  show ?case by simp
next
  case (2 c cs)
  have "set (dropWhile is_space cs) \<subseteq> set cs" using set_dropWhileD by fastforce
  with 2 show ?case by (cases "is_space c") auto
qed

lemma set_re_sub_punct:
  "set (re_sub_punct s) \<subseteq> insert 32 (set s - {44, 59, 58, 34, 39})"
  unfolding re_sub_punct_def by auto

lemma re_sub_punct_id: "set s \<inter> {44, 59, 58, 34, 39} = {} \<Longrightarrow> re_sub_punct s = s"
  unfolding re_sub_punct_def by (induction s) auto

lemma set_str_replace: "set (str_replace old new s) \<subseteq> set s \<union> set new"
proof (induction old new s rule: str_replace.induct)
  case (1 new s)
  show ?case by auto
next
  case (2 k ks new)
  show ?case by simp
next
  case (3 k ks new c cs)
  have "set (drop (length ks) cs) \<subseteq> set cs" by (rule set_drop_subset)
  with 3 show ?case by (cases "prefix (k # ks) (c # cs)") auto
qed

lemma set_str_replace_single:
  "k \<notin> set new \<Longrightarrow> k \<notin> set (str_replace [k] new s)"
  by (induction s) auto

lemma str_replace_absent: "k \<notin> set s \<Longrightarrow> str_replace (k # ks) new s = s"
  by (induction s) auto

lemma notin_str_replace:
  "c \<notin> set s \<Longrightarrow> c \<notin> set new \<Longrightarrow> c \<notin> set (str_replace old new s)"
  using set_str_replace[of old new s] by auto

lemma apply_replacements_clean:
  "set (apply_replacements replacements s) \<inter> replaced_chars = {}"
  unfolding replacements_def replaced_chars_def
  by (simp add: notin_str_replace set_str_replace_single)

lemma set_apply_replacements:
  "set (apply_replacements rs s) \<subseteq> set s \<union> (\<Union>r\<in>set rs. set (snd r))"
proof (induction rs s rule: apply_replacements.induct)
  case (1 t)
  show ?case by simp
next
  case (2 old new rs t)
  with set_str_replace[of old new t] show ?case by auto
qed

lemma apply_replacements_id:
  "\<forall>r\<in>set rs. fst r \<noteq> [] \<and> hd (fst r) \<notin> set s \<Longrightarrow> apply_replacements rs s = s"
proof (induction rs s rule: apply_replacements.induct)
  case (1 t)
  show ?case by simp
next
  case (2 old new rs t)
  then obtain k ks where "old = k # ks" "k \<notin> set t" by (cases old) auto
  then have "str_replace old new t = t" by (simp add: str_replace_absent)
  with 2 show ?case by simp
qed


lemma preprocess_basic_idem:
  "strip (re_sub_ws (strip (re_sub_ws x))) = strip (re_sub_ws x)"
proof -
  have "ws_normal (strip (re_sub_ws x))"
    by (intro ws_normal_strip ws_normal_re_sub_ws)
  then have "re_sub_ws (strip (re_sub_ws x)) = strip (re_sub_ws x)"
    by (rule re_sub_ws_id)
  then show ?thesis by (simp add: strip_strip)
qed

lemma preprocess_text_enhanced:
  "enable_enhanced_preprocessing cfg \<Longrightarrow> preprocess_text lower cfg x = enhanced lower x"
  by (simp add: preprocess_text_def enhanced_def Let_def)

lemma enhanced_fixed:
  assumes lw: "lower t = t"
    and np: "set t \<inter> {44, 59, 58, 34, 39} = {}"
    and nr: "set t \<inter> replaced_chars = {}"
    and wn: "ws_normal t"
    and st: "strip t = t"
  shows "enhanced lower t = t"
proof -
  have "\<forall>r\<in>set replacements. fst r \<noteq> [] \<and> hd (fst r) \<notin> set t"
    using np nr unfolding replacements_def replaced_chars_def by auto
  then have "apply_replacements replacements t = t" by (rule apply_replacements_id)
  moreover have "re_sub_ws t = t" using wn by (rule re_sub_ws_id)
  moreover have "re_sub_punct t = t" using np by (rule re_sub_punct_id)
  ultimately show ?thesis using lw st by (simp add: enhanced_def)
qed

lemma enhanced_chars:
  assumes "set (lower x) \<subseteq> L" and "{32, 45, 46, 102, 105, 108} \<subseteq> L"
  shows "set (enhanced lower x) \<subseteq> L"
    and "set (enhanced lower x) \<inter> {44, 59, 58, 34, 39} = {}"
    and "set (enhanced lower x) \<inter> replaced_chars = {}"
proof -
  define t2 where "t2 = apply_replacements replacements (lower x)"
  define t3 where "t3 = re_sub_ws t2"
  define t4 where "t4 = re_sub_punct t3"
  define t5 where "t5 = re_sub_ws t4"
  have e: "enhanced lower x = strip t5"
    by (simp add: enhanced_def t2_def t3_def t4_def t5_def)
  have s2: "set t2 \<subseteq> set (lower x) \<union> {102, 105, 108, 45, 39, 34, 46}"
    unfolding t2_def using set_apply_replacements[of replacements "lower x"]
    by (auto simp: replacements_def)
  have c2: "set t2 \<inter> replaced_chars = {}"
    unfolding t2_def by (rule apply_replacements_clean)
  have s3: "set t3 \<subseteq> insert 32 (set t2)" unfolding t3_def by (rule set_re_sub_ws)
  have s4: "set t4 \<subseteq> insert 32 (set t3 - {44, 59, 58, 34, 39})"
    unfolding t4_def by (rule set_re_sub_punct)
  have s5: "set t5 \<subseteq> insert 32 (set t4)" unfolding t5_def by (rule set_re_sub_ws)
  have s6: "set (strip t5) \<subseteq> set t5" by (rule set_strip)
  have r32: "32 \<notin> replaced_chars" by (simp add: replaced_chars_def)
  have l3: "set t3 - {44, 59, 58, 34, 39} \<subseteq> L" using s2 s3 assms by auto
  have l4: "set t4 \<subseteq> L" using s4 l3 assms(2) by auto
  have l5: "set t5 \<subseteq> L" using s5 l4 assms(2) by auto
  show "set (enhanced lower x) \<subseteq> L"
    unfolding e using s6 l5 by auto
  have p4: "set t4 \<inter> {44, 59, 58, 34, 39} = {}" using s4 by auto
  have p5: "set t5 \<inter> {44, 59, 58, 34, 39} = {}" using s5 p4 by auto
  show "set (enhanced lower x) \<inter> {44, 59, 58, 34, 39} = {}"
    unfolding e using s6 p5 by auto
  have c3: "set t3 \<inter> replaced_chars = {}" using c2 s3 r32 by auto
  have c4: "set t4 \<inter> replaced_chars = {}" using c3 s4 r32 by auto
  have c5: "set t5 \<inter> replaced_chars = {}" using c4 s5 r32 by auto
  show "set (enhanced lower x) \<inter> replaced_chars = {}"
    unfolding e using s6 c5 by auto
qed

lemma enhanced_normal:
  "ws_normal (enhanced lower x)" "strip (enhanced lower x) = enhanced lower x"
  unfolding enhanced_def
  by (intro ws_normal_strip ws_normal_re_sub_ws) (rule strip_strip)

text \<open>
  Claim C6. \<^verbatim>\<open>preprocess_text\<close> is idempotent on every string, in the basic and in the
  enhanced mode. \<^verbatim>\<open>str.lower\<close> enters through what Python's lower-casing satisfies: there
  is a set \<open>L\<close> of code points (those lower-casing leaves alone) such that every lowered
  string is over \<open>L\<close>, every string over \<open>L\<close> is unchanged by lowering, and the ASCII
  characters the replacement table and the whitespace rules introduce (space, hyphen, full
  stop, f, i, l) are in \<open>L\<close>.
\<close>

theorem preprocess_text_idempotent:
  assumes "\<forall>s. set (lower s) \<subseteq> L"
    and "\<forall>s. set s \<subseteq> L \<longrightarrow> lower s = s"
    and "{32, 45, 46, 102, 105, 108} \<subseteq> L"
  shows "preprocess_text lower cfg (preprocess_text lower cfg x) = preprocess_text lower cfg x"
proof (cases "enable_enhanced_preprocessing cfg")
  case False
  then show ?thesis by (simp add: preprocess_text_def preprocess_basic_idem)
next
  case True
  have sub: "set (lower x) \<subseteq> L" using assms(1) by blast
  have "set (enhanced lower x) \<subseteq> L" using sub assms(3) by (rule enhanced_chars(1))
  then have "lower (enhanced lower x) = enhanced lower x" using assms(2) by blast
  then have "enhanced lower (enhanced lower x) = enhanced lower x"
    using enhanced_chars(2)[of lower x L, OF sub assms(3)]
      enhanced_chars(3)[of lower x L, OF sub assms(3)]
      enhanced_normal[of lower x]
    by (intro enhanced_fixed)
  with True show ?thesis by (simp add: preprocess_text_enhanced)
qed

text \<open>
  The hypotheses hold for ASCII lower-casing; the run below goes through every stage
  (ligature, dash, zero-width character, the seven-character key, ellipsis, punctuation).
\<close>

lemma ascii_lower_stable: "set (ascii_lower s) \<subseteq> {c. \<not> (65 \<le> c \<and> c \<le> 90)}"
  unfolding ascii_lower_def by auto

lemma ascii_lower_fixed: "set s \<subseteq> {c. \<not> (65 \<le> c \<and> c \<le> 90)} \<Longrightarrow> ascii_lower s = s"
  unfolding ascii_lower_def by (induction s) auto

theorem preprocess_text_idempotent_witness:
  "preprocess_text ascii_lower comparison_config
     (preprocess_text ascii_lower comparison_config
        [32, 72, 105, 44, 32, 32, 64257, 110, 8212, 8203, 88, 58, 32, 34, 39, 34, 44, 32, 8230, 10]) =
   preprocess_text ascii_lower comparison_config
        [32, 72, 105, 44, 32, 32, 64257, 110, 8212, 8203, 88, 58, 32, 34, 39, 34, 44, 32, 8230, 10]
   \<and> preprocess_text ascii_lower comparison_config
        [32, 72, 105, 44, 32, 32, 64257, 110, 8212, 8203, 88, 58, 32, 34, 39, 34, 44, 32, 8230, 10] =
      [104, 105, 32, 102, 105, 110, 45, 120, 32, 46, 46, 46]"
proof -
  have a: "\<forall>s. set (ascii_lower s) \<subseteq> {c. \<not> (65 \<le> c \<and> c \<le> 90)}"
    using ascii_lower_stable by blast
  have b: "\<forall>s. set s \<subseteq> {c. \<not> (65 \<le> c \<and> c \<le> 90)} \<longrightarrow> ascii_lower s = s"
    using ascii_lower_fixed by blast
  have c: "{32, 45, 46, 102, 105, 108} \<subseteq> {c::nat. \<not> (65 \<le> c \<and> c \<le> 90)}" by simp
  have d: "preprocess_text ascii_lower comparison_config
        [32, 72, 105, 44, 32, 32, 64257, 110, 8212, 8203, 88, 58, 32, 34, 39, 34, 44, 32, 8230, 10] =
      [104, 105, 32, 102, 105, 110, 45, 120, 32, 46, 46, 46]"
    by (simp add: preprocess_text_def comparison_config_def ascii_lower_def replacements_def
        re_sub_punct_def strip_def is_space_def Let_def)
  have i: "preprocess_text ascii_lower comparison_config
     (preprocess_text ascii_lower comparison_config
        [32, 72, 105, 44, 32, 32, 64257, 110, 8212, 8203, 88, 58, 32, 34, 39, 34, 44, 32, 8230, 10]) =
   preprocess_text ascii_lower comparison_config
        [32, 72, 105, 44, 32, 32, 64257, 110, 8212, 8203, 88, 58, 32, 34, 39, 34, 44, 32, 8230, 10]"
    by (rule preprocess_text_idempotent[OF a b c])
  show ?thesis by (rule conjI[OF i d])
qed

section \<open>Content-unit extraction\<close>

lemma extract_paragraphs_eq:
  "extract_paragraphs lower cfg n ps acc =
     acc @ map (\<lambda>orig. (preprocess_text lower cfg orig, n, orig))
             (filter (\<lambda>orig. preprocess_text lower cfg orig \<noteq> [] \<and>
                  int (length (preprocess_text lower cfg orig)) > min_meaningful_text_length cfg) ps)"
  by (induction ps arbitrary: acc) (simp_all add: Let_def)

lemma extract_pages_set:
  "set (extract_pages lower cfg n pages acc) =
     set acc \<union>
     {(preprocess_text lower cfg orig, n + i, orig) | i orig.
        i < length pages \<and> orig \<in> set (re_split_paragraphs (pages ! i)) \<and>
        preprocess_text lower cfg orig \<noteq> [] \<and>
        int (length (preprocess_text lower cfg orig)) > min_meaningful_text_length cfg}"
proof (induction pages arbitrary: n acc)
  case Nil
  show ?case by simp
next
  case (Cons page pages)
  let ?pp = "preprocess_text lower cfg"
  let ?ok = "\<lambda>orig. ?pp orig \<noteq> [] \<and> int (length (?pp orig)) > min_meaningful_text_length cfg"
  let ?S = "\<lambda>m ps. {(?pp orig, m + i, orig) | i orig.
        i < length ps \<and> orig \<in> set (re_split_paragraphs (ps ! i)) \<and> ?ok orig}"
  have step: "?S n (page # pages) =
      {(?pp orig, n, orig) | orig. orig \<in> set (re_split_paragraphs page) \<and> ?ok orig}
      \<union> ?S (Suc n) pages" (is "?L = ?A \<union> ?B")
  proof (intro set_eqI iffI)
    fix u assume "u \<in> ?L"
    then obtain i orig where u: "u = (?pp orig, n + i, orig)" and i: "i < length (page # pages)"
      and m: "orig \<in> set (re_split_paragraphs ((page # pages) ! i))" and ok: "?ok orig"
      by blast
    show "u \<in> ?A \<union> ?B"
    proof (cases i)
      case 0
      with u m ok show ?thesis by auto
    next
      case (Suc k)
      with u i m ok have "u = (?pp orig, Suc n + k, orig)" "k < length pages"
        "orig \<in> set (re_split_paragraphs (pages ! k))" by auto
      with ok have "u \<in> ?B" by blast
      then show ?thesis by blast
    qed
  next
    fix u assume "u \<in> ?A \<union> ?B"
    then show "u \<in> ?L"
    proof
      assume "u \<in> ?A"
      then obtain orig where "u = (?pp orig, n + 0, orig)"
        "orig \<in> set (re_split_paragraphs ((page # pages) ! 0))" "?ok orig" by auto
      moreover have "0 < length (page # pages)" by simp
      ultimately show ?thesis by blast
    next
      assume "u \<in> ?B"
      then obtain k orig where "u = (?pp orig, n + Suc k, orig)" "Suc k < length (page # pages)"
        "orig \<in> set (re_split_paragraphs ((page # pages) ! Suc k))" "?ok orig" by auto
      then show ?thesis by blast
    qed
  qed
  have "set (extract_pages lower cfg n (page # pages) acc) =
      set (extract_paragraphs lower cfg n (re_split_paragraphs page) acc) \<union> ?S (Suc n) pages"
    using Cons.IH by simp
  also have "set (extract_paragraphs lower cfg n (re_split_paragraphs page) acc) =
      set acc \<union> {(?pp orig, n, orig) | orig. orig \<in> set (re_split_paragraphs page) \<and> ?ok orig}"
    by (auto simp: extract_paragraphs_eq)
  finally show ?case using step by (simp add: Un_assoc)
qed

lemma extract_content_units_set:
  "set (extract_content_units lower cfg pages) =
     {(preprocess_text lower cfg orig, i, orig) | i orig.
        i < length pages \<and> orig \<in> set (re_split_paragraphs (pages ! i)) \<and>
        preprocess_text lower cfg orig \<noteq> [] \<and>
        int (length (preprocess_text lower cfg orig)) > min_meaningful_text_length cfg}"
  unfolding extract_content_units_def by (simp add: extract_pages_set)

lemma re_split_paragraphs_aux_sublist:
  "p \<in> set (re_split_paragraphs_aux cur s) \<Longrightarrow> sublist p (pre @ cur @ s)"
proof (induction cur s arbitrary: pre rule: re_split_paragraphs_aux.induct)
  case (1 cur)
  then show ?case by (simp add: sublist_appendI)
next
  case (2 cur c cs)
  define run where "run = takeWhile is_space cs"
  define m where "m = length run - length (takeWhile (\<lambda>x. x \<noteq> 10) (rev run))"
  show ?case
  proof (cases "c = 10 \<and> 10 \<in> set run")
    case True
    with 2(3) have "p = cur \<or> p \<in> set (re_split_paragraphs_aux [] (drop m cs))"
      by (auto simp: Let_def run_def m_def)
    then show ?thesis
    proof
      assume "p = cur"
      then show ?thesis by (simp add: sublist_appendI)
    next
      assume a: "p \<in> set (re_split_paragraphs_aux [] (drop m cs))"
      have "sublist p ((pre @ cur @ c # take m cs) @ [] @ drop m cs)"
        using 2(1)[OF run_def True a[unfolded m_def], of "pre @ cur @ c # take m cs"]
        by (simp only: m_def)
      then show ?thesis by simp
    qed
  next
    case False
    with 2(3) have "p \<in> set (re_split_paragraphs_aux (cur @ [c]) cs)"
      by (auto simp: Let_def run_def)
    then have "sublist p (pre @ (cur @ [c]) @ cs)"
      by (rule 2(2)[OF run_def False])
    then show ?thesis by simp
  qed
qed

lemma re_split_paragraphs_sublist:
  "p \<in> set (re_split_paragraphs s) \<Longrightarrow> sublist p s"
  using re_split_paragraphs_aux_sublist[of p "[]" s "[]"] by (simp add: re_split_paragraphs_def)

text \<open>
  Claim C7. Every tuple \<open>(processed, page_num, original)\<close> that
  \<^verbatim>\<open>extract_content_units\<close> emits has \<open>length processed\<close> above
  \<^verbatim>\<open>min_meaningful_text_length\<close>, has \<open>processed = preprocess_text original\<close>, and carries
  the index of a page of the input of whose text \<open>original\<close> is one of the paragraphs
  (a piece of the blank-line split, hence a contiguous part of the page text). A paragraph
  whose normalised length is at most the minimum is not emitted.
\<close>

theorem extract_content_units_invariant:
  "(\<forall>(processed, page_num, original) \<in> set (extract_content_units lower cfg text_by_page).
      int (length processed) > min_meaningful_text_length cfg \<and>
      processed = preprocess_text lower cfg original \<and>
      page_num < length text_by_page \<and>
      original \<in> set (re_split_paragraphs (text_by_page ! page_num)) \<and>
      sublist original (text_by_page ! page_num))
   \<and> (\<forall>page_num < length text_by_page.
        \<forall>original \<in> set (re_split_paragraphs (text_by_page ! page_num)).
          int (length (preprocess_text lower cfg original)) \<le> min_meaningful_text_length cfg \<longrightarrow>
          (preprocess_text lower cfg original, page_num, original)
             \<notin> set (extract_content_units lower cfg text_by_page))"
  by (auto simp: extract_content_units_set re_split_paragraphs_sublist)

text \<open>
  A two-page run: the five-character paragraph \<open>short\<close> of the first page is dropped, the
  two long paragraphs are emitted with their page indices.
\<close>

lemmas text_eval = preprocess_text_def comparison_config_def ascii_lower_def replacements_def
  re_sub_punct_def strip_def is_space_def Let_def ascii_def

lemma extract_content_units_run:
  "extract_content_units ascii_lower comparison_config
     [ascii ''Hello world, this is long\<newline>\<newline>short'', ascii ''Another Paragraph here ok''] =
   [(ascii ''hello world this is long'', 0, ascii ''Hello world, this is long''),
    (ascii ''another paragraph here ok'', 1, ascii ''Another Paragraph here ok'')]"
  by (simp add: extract_content_units_def re_split_paragraphs_def text_eval)

theorem extract_content_units_invariant_witness:
  "(ascii ''another paragraph here ok'', 1, ascii ''Another Paragraph here ok'')
     \<in> set (extract_content_units ascii_lower comparison_config
         [ascii ''Hello world, this is long\<newline>\<newline>short'', ascii ''Another Paragraph here ok''])
   \<and> int (length (ascii ''another paragraph here ok''))
       > min_meaningful_text_length comparison_config
   \<and> ascii ''another paragraph here ok'' =
       preprocess_text ascii_lower comparison_config (ascii ''Another Paragraph here ok'')
   \<and> ascii ''short'' \<in> set (re_split_paragraphs
         ([ascii ''Hello world, this is long\<newline>\<newline>short'', ascii ''Another Paragraph here ok''] ! 0))
   \<and> int (length (preprocess_text ascii_lower comparison_config (ascii ''short'')))
       \<le> min_meaningful_text_length comparison_config
   \<and> (preprocess_text ascii_lower comparison_config (ascii ''short''), 0, ascii ''short'')
       \<notin> set (extract_content_units ascii_lower comparison_config
         [ascii ''Hello world, this is long\<newline>\<newline>short'', ascii ''Another Paragraph here ok''])"
proof -
  let ?pages = "[ascii ''Hello world, this is long\<newline>\<newline>short'', ascii ''Another Paragraph here ok'']"
  let ?u = "(ascii ''another paragraph here ok'', 1::nat, ascii ''Another Paragraph here ok'')"
  note inv = extract_content_units_invariant[of ascii_lower comparison_config ?pages]
  have mem: "?u \<in> set (extract_content_units ascii_lower comparison_config ?pages)"
    by (simp only: extract_content_units_run) simp
  have sp: "ascii ''short'' \<in> set (re_split_paragraphs (?pages ! 0))"
    by (simp add: re_split_paragraphs_def text_eval)
  have le: "int (length (preprocess_text ascii_lower comparison_config (ascii ''short'')))
       \<le> min_meaningful_text_length comparison_config"
    by (simp add: text_eval)
  from inv mem have a: "int (length (ascii ''another paragraph here ok''))
       > min_meaningful_text_length comparison_config
     \<and> ascii ''another paragraph here ok'' =
       preprocess_text ascii_lower comparison_config (ascii ''Another Paragraph here ok'')"
    by fast
  have "0 < length ?pages" by simp
  with inv sp le have b: "(preprocess_text ascii_lower comparison_config (ascii ''short''), 0, ascii ''short'')
       \<notin> set (extract_content_units ascii_lower comparison_config ?pages)"
    by fast
  show ?thesis
    by (intro conjI) (rule mem, rule conjunct1[OF a], rule conjunct2[OF a], rule sp, rule le, rule b)
qed

section \<open>The similarity ratio lies between 0 and 1\<close>

lemma matching_total_le:
  "matching_total a b alo ahi blo bhi \<le> min (ahi - alo) (bhi - blo)"
proof (induction a b alo ahi blo bhi rule: matching_total.induct)
  case (1 a b alo ahi blo bhi)
  obtain i j k where f: "find_longest_match a b alo ahi blo bhi = (i, j, k)"
    by (cases "find_longest_match a b alo ahi blo bhi") auto
  show ?case
  proof (cases "k = 0")
    case True
    with f show ?thesis by (subst matching_total.simps) simp
  next
    case False
    from find_longest_match_bounds[OF f] False
    have b: "alo \<le> i" "blo \<le> j" "i + k \<le> ahi" "j + k \<le> bhi" by auto
    define l where "l = (if alo < i \<and> blo < j then matching_total a b alo i blo j else 0)"
    define r where "r = (if i + k < ahi \<and> j + k < bhi
        then matching_total a b (i + k) ahi (j + k) bhi else 0)"
    have l: "l \<le> min (i - alo) (j - blo)"
      using "1.IH"(1)[OF f[symmetric] refl False] by (simp add: l_def)
    have r: "r \<le> min (ahi - (i + k)) (bhi - (j + k))"
      using "1.IH"(2)[OF f[symmetric] refl False] by (simp add: r_def)
    have "matching_total a b alo ahi blo bhi = k + l + r"
      using f False by (subst matching_total.simps) (simp add: l_def r_def)
    moreover from l r b have "k + l + r \<le> ahi - alo" "k + l + r \<le> bhi - blo" by linarith+
    ultimately show ?thesis by simp
  qed
qed

lemma SequenceMatcher_ratio_range:
  "0 \<le> SequenceMatcher_ratio a b \<and> SequenceMatcher_ratio a b \<le> 1"
proof -
  have "matching_total a b 0 (length a) 0 (length b) \<le> min (length a) (length b)"
    using matching_total_le[of a b 0 "length a" 0 "length b"] by simp
  then have "2 * matching_total a b 0 (length a) 0 (length b) \<le> length a + length b"
    by simp
  then have "2 * real (matching_total a b 0 (length a) 0 (length b)) \<le> real (length a + length b)"
    by (metis of_nat_le_iff of_nat_mult of_nat_numeral)
  then show ?thesis
    by (simp add: SequenceMatcher_ratio_def Let_def divide_le_eq)
qed

section \<open>The matching pass\<close>

subsection \<open>The scan of the unmatched new units\<close>

lemma scan_Some:
  "scan_unmatched_new ratio cfg t j0 xs (bi, bs) = (Some (j, s), bi', bs') \<Longrightarrow>
   j0 \<le> j \<and> j - j0 < length xs \<and> s = ratio t (fst (xs ! (j - j0))) \<and>
   exact_match_threshold cfg \<le> s \<and>
   (\<forall>k < j - j0. ratio t (fst (xs ! k)) < exact_match_threshold cfg)"
proof (induction xs arbitrary: j0 bi bs)
  case Nil
  then show ?case by simp
next
  case (Cons x xs)
  obtain nt np no where x: "x = (nt, np, no)" by (cases x) auto
  show ?case
  proof (cases "exact_match_threshold cfg \<le> ratio t nt")
    case True
    with Cons.prems x show ?thesis by (auto simp: Let_def split: if_splits)
  next
    case False
    define b where "b = (if ratio t nt > bs then (int j0, ratio t nt) else (bi, bs))"
    from Cons.prems x False
    have "scan_unmatched_new ratio cfg t (Suc j0) xs (fst b, snd b) = (Some (j, s), bi', bs')"
      by (auto simp: Let_def b_def split: if_splits)
    from Cons.IH[OF this]
    have ih: "Suc j0 \<le> j" "j - Suc j0 < length xs" "s = ratio t (fst (xs ! (j - Suc j0)))"
      "exact_match_threshold cfg \<le> s"
      "\<forall>k < j - Suc j0. ratio t (fst (xs ! k)) < exact_match_threshold cfg" by auto
    from ih(1) have sj: "j - j0 = Suc (j - Suc j0)" by simp
    have "\<forall>k < j - j0. ratio t (fst ((x # xs) ! k)) < exact_match_threshold cfg"
    proof (intro allI impI)
      fix k assume "k < j - j0"
      then show "ratio t (fst ((x # xs) ! k)) < exact_match_threshold cfg"
        using ih(5) False x sj by (cases k) auto
    qed
    with ih sj show ?thesis by simp
  qed
qed

lemma scan_first:
  "j < length xs \<Longrightarrow> exact_match_threshold cfg \<le> ratio t (fst (xs ! j)) \<Longrightarrow>
   \<forall>k < j. ratio t (fst (xs ! k)) < exact_match_threshold cfg \<Longrightarrow>
   fst (scan_unmatched_new ratio cfg t j0 xs (bi, bs)) = Some (j0 + j, ratio t (fst (xs ! j)))"
proof (induction xs arbitrary: j j0 bi bs)
  case Nil
  then show ?case by simp
next
  case (Cons x xs)
  obtain nt np no where x: "x = (nt, np, no)" by (cases x) auto
  show ?case
  proof (cases j)
    case 0
    with Cons.prems x show ?thesis by (simp add: Let_def split: if_splits)
  next
    case (Suc j')
    with Cons.prems have lt: "ratio t nt < exact_match_threshold cfg" using x by auto
    define b where "b = (if ratio t nt > bs then (int j0, ratio t nt) else (bi, bs))"
    have "fst (scan_unmatched_new ratio cfg t (Suc j0) xs (fst b, snd b)) =
        Some (Suc j0 + j', ratio t (fst (xs ! j')))"
      using Cons.prems Suc by (intro Cons.IH) auto
    with lt x Suc show ?thesis by (simp add: Let_def b_def split: if_splits)
  qed
qed

lemma scan_keep:
  "\<forall>x \<in> set xs. ratio t (fst x) < exact_match_threshold cfg \<and> ratio t (fst x) \<le> bs \<Longrightarrow>
   scan_unmatched_new ratio cfg t j0 xs (bi, bs) = (None, bi, bs)"
proof (induction xs arbitrary: j0)
  case Nil
  show ?case by simp
next
  case (Cons x xs)
  obtain nt np no where x: "x = (nt, np, no)" by (cases x) auto
  with Cons show ?case by (simp add: Let_def)
qed

lemma scan_best:
  "\<forall>k < length xs. ratio t (fst (xs ! k)) < exact_match_threshold cfg \<Longrightarrow>
   b < length xs \<Longrightarrow> bs < ratio t (fst (xs ! b)) \<Longrightarrow>
   \<forall>k < length xs. ratio t (fst (xs ! k)) \<le> ratio t (fst (xs ! b)) \<Longrightarrow>
   \<forall>k < b. ratio t (fst (xs ! k)) < ratio t (fst (xs ! b)) \<Longrightarrow>
   scan_unmatched_new ratio cfg t j0 xs (bi, bs) = (None, int (j0 + b), ratio t (fst (xs ! b)))"
proof (induction xs arbitrary: b j0 bi bs)
  case Nil
  then show ?case by simp
next
  case (Cons x xs)
  obtain nt np no where x: "x = (nt, np, no)" by (cases x) auto
  from Cons.prems(1) have lt0: "ratio t nt < exact_match_threshold cfg" using x by auto
  from Cons.prems(1) have ltk: "\<forall>k < length xs. ratio t (fst (xs ! k)) < exact_match_threshold cfg"
    by auto
  show ?case
  proof (cases b)
    case 0
    have "\<forall>y \<in> set xs. ratio t (fst y) < exact_match_threshold cfg \<and> ratio t (fst y) \<le> ratio t nt"
    proof
      fix y assume "y \<in> set xs"
      then obtain k where k: "k < length xs" "xs ! k = y" by (auto simp: in_set_conv_nth)
      with ltk have "ratio t (fst y) < exact_match_threshold cfg" by auto
      moreover from Cons.prems(4) k 0 x have "ratio t (fst y) \<le> ratio t nt"
        by (auto dest: spec[where x = "Suc k"])
      ultimately show "ratio t (fst y) < exact_match_threshold cfg \<and> ratio t (fst y) \<le> ratio t nt"
        by simp
    qed
    then have "scan_unmatched_new ratio cfg t (Suc j0) xs (int j0, ratio t nt) =
        (None, int j0, ratio t nt)" by (rule scan_keep)
    with Cons.prems(3) lt0 x 0 show ?thesis by (simp add: Let_def)
  next
    case (Suc b')
    define m where "m = ratio t (fst (xs ! b'))"
    from Cons.prems(5) Suc x have x_lt: "ratio t nt < m" by (auto simp: m_def)
    from Cons.prems(3) Suc have bs_lt: "bs < m" by (simp add: m_def)
    define st where "st = (if ratio t nt > bs then (int j0, ratio t nt) else (bi, bs))"
    have snd_lt: "snd st < m" using x_lt bs_lt by (simp add: st_def)
    have le: "\<forall>k < length xs. ratio t (fst (xs ! k)) \<le> ratio t (fst (xs ! b'))"
      using Cons.prems(4) Suc by (auto dest: spec[where x = "Suc k" for k])
    have lt: "\<forall>k < b'. ratio t (fst (xs ! k)) < ratio t (fst (xs ! b'))"
      using Cons.prems(5) Suc by (auto dest: spec[where x = "Suc k" for k])
    have "scan_unmatched_new ratio cfg t (Suc j0) xs (fst st, snd st) =
        (None, int (Suc j0 + b'), ratio t (fst (xs ! b')))"
      using Cons.prems(2) Suc snd_lt le lt ltk by (intro Cons.IH) (auto simp: m_def)
    with lt0 x Suc show ?thesis by (simp add: Let_def st_def split: if_splits)
  qed
qed

lemma scan_None:
  "scan_unmatched_new ratio cfg t j0 xs (bi, bs) = (None, bi', bs') \<Longrightarrow>
   (\<forall>x \<in> set xs. ratio t (fst x) < exact_match_threshold cfg) \<and>
   ((bi', bs') = (bi, bs) \<or>
    (bs' < exact_match_threshold cfg \<and> int j0 \<le> bi' \<and> nat bi' - j0 < length xs \<and>
     bs' = ratio t (fst (xs ! (nat bi' - j0)))))"
proof (induction xs arbitrary: j0 bi bs)
  case Nil
  then show ?case by simp
next
  case (Cons x xs)
  obtain nt np no where x: "x = (nt, np, no)" by (cases x) auto
  define st where "st = (if ratio t nt > bs then (int j0, ratio t nt) else (bi, bs))"
  from Cons.prems x have lt0: "ratio t nt < exact_match_threshold cfg"
    by (auto simp: Let_def split: if_splits)
  with Cons.prems x
  have rec: "scan_unmatched_new ratio cfg t (Suc j0) xs (fst st, snd st) = (None, bi', bs')"
    by (auto simp: Let_def st_def split: if_splits)
  from Cons.IH[OF rec]
  have all: "\<forall>y \<in> set xs. ratio t (fst y) < exact_match_threshold cfg"
    and alt: "(bi', bs') = (fst st, snd st) \<or>
      (bs' < exact_match_threshold cfg \<and> int (Suc j0) \<le> bi' \<and> nat bi' - Suc j0 < length xs \<and>
       bs' = ratio t (fst (xs ! (nat bi' - Suc j0))))" by auto
  from alt have "(bi', bs') = (bi, bs) \<or>
    (bs' < exact_match_threshold cfg \<and> int j0 \<le> bi' \<and> nat bi' - j0 < length (x # xs) \<and>
     bs' = ratio t (fst ((x # xs) ! (nat bi' - j0))))"
  proof
    assume "(bi', bs') = (fst st, snd st)"
    then show ?thesis using lt0 x by (auto simp: st_def split: if_splits)
  next
    assume a: "bs' < exact_match_threshold cfg \<and> int (Suc j0) \<le> bi' \<and> nat bi' - Suc j0 < length xs \<and>
       bs' = ratio t (fst (xs ! (nat bi' - Suc j0)))"
    then have "nat bi' - j0 = Suc (nat bi' - Suc j0)" by linarith
    with a show ?thesis by auto
  qed
  with all lt0 x show ?case by auto
qed

subsection \<open>One iteration of the outer loop\<close>

lemma match_old_unit_cases:
  fixes st :: match_state
  defines "un \<equiv> unmatched_new st"
  shows
  "(\<exists>j s. j < length un \<and> s = ratio t (fst (un ! j)) \<and> exact_match_threshold cfg \<le> s \<and>
       match_old_unit ratio cfg i (t, p, orig) st =
         st\<lparr> old_matched := (old_matched st)[i := True],
             matched_pairs := matched_pairs st @ [((t, p, orig), un ! j, s)],
             unmatched_new := take j un @ drop (Suc j) un \<rparr>)
   \<or> (\<exists>b s. b < length un \<and> s = ratio t (fst (un ! b)) \<and> s < exact_match_threshold cfg \<and>
       match_old_unit ratio cfg i (t, p, orig) st =
         st\<lparr> matched_pairs := matched_pairs st @ [((t, p, orig), un ! b, s)],
             removed := removed st @ [(t, p, orig)] \<rparr>)
   \<or> match_old_unit ratio cfg i (t, p, orig) st = st\<lparr> removed := removed st @ [(t, p, orig)] \<rparr>"
proof -
  obtain found bi bs where sc: "scan_unmatched_new ratio cfg t 0 un (- 1, 0) = (found, bi, bs)"
    by (cases "scan_unmatched_new ratio cfg t 0 un (- 1, 0)") auto
  show ?thesis
  proof (cases found)
    case (Some js)
    obtain j s where js: "js = (j, s)" by (cases js) auto
    from scan_Some[OF sc[unfolded Some js]]
    have "j < length un" "s = ratio t (fst (un ! j))" "exact_match_threshold cfg \<le> s" by auto
    moreover have "match_old_unit ratio cfg i (t, p, orig) st =
         st\<lparr> old_matched := (old_matched st)[i := True],
             matched_pairs := matched_pairs st @ [((t, p, orig), un ! j, s)],
             unmatched_new := take j un @ drop (Suc j) un \<rparr>"
      using sc Some js by (simp add: match_old_unit_def un_def)
    ultimately show ?thesis by blast
  next
    case None
    show ?thesis
    proof (cases "bi \<ge> 0 \<and> bs > 7 / 10")
      case True
      from scan_None[OF sc[unfolded None]] True
      have "bs < exact_match_threshold cfg" "nat bi < length un" "bs = ratio t (fst (un ! nat bi))"
        by auto
      moreover have "match_old_unit ratio cfg i (t, p, orig) st =
         st\<lparr> matched_pairs := matched_pairs st @ [((t, p, orig), un ! nat bi, bs)],
             removed := removed st @ [(t, p, orig)] \<rparr>"
        using sc None True by (simp add: match_old_unit_def un_def)
      ultimately show ?thesis by blast
    next
      case False
      have "match_old_unit ratio cfg i (t, p, orig) st = st\<lparr> removed := removed st @ [(t, p, orig)] \<rparr>"
        using sc None False by (simp add: match_old_unit_def un_def)
      then show ?thesis by blast
    qed
  qed
qed

lemma zip_snoc:
  "length xs < length fl \<Longrightarrow> zip (xs @ [u]) fl = zip xs fl @ [(u, fl ! length xs)]"
proof (induction xs arbitrary: fl)
  case Nil
  then show ?case by (cases fl) auto
next
  case (Cons x xs)
  then show ?case by (cases fl) auto
qed

lemma zip_update_beyond:
  "length xs \<le> i \<Longrightarrow> zip xs (fl[i := v]) = zip xs fl"
proof (induction xs arbitrary: fl i)
  case Nil
  show ?case by simp
next
  case (Cons x xs)
  then show ?case by (cases fl; cases i) auto
qed

lemma mset_pop:
  "j < length xs \<Longrightarrow> add_mset (xs ! j) (mset (take j xs @ drop (Suc j) xs)) = mset xs"
proof -
  assume "j < length xs"
  then have "xs = take j xs @ xs ! j # drop (Suc j) xs" by (rule id_take_nth_drop)
  then have "mset xs = mset (take j xs @ xs ! j # drop (Suc j) xs)" by simp
  then show ?thesis by simp
qed

lemma consumed_snoc:
  "consumed cfg (ps @ [(u, n, s)]) =
     (if exact_match_threshold cfg \<le> s then consumed cfg ps @ [(u, n, s)] else consumed cfg ps)"
  by (simp add: consumed_def)

lemma loop_inv_step:
  assumes inv: "loop_inv ratio cfg new_units done_units (Suc todo) st"
  shows "loop_inv ratio cfg new_units (done_units @ [u]) todo
           (match_old_unit ratio cfg (length done_units) u st)"
proof -
  obtain t p orig where u: "u = (t, p, orig)" by (cases u) auto
  let ?i = "length done_units"
  let ?fl = "old_matched st"
  from inv have len: "length ?fl = ?i + Suc todo"
    and rest: "\<forall>k. ?i \<le> k \<and> k < length ?fl \<longrightarrow> \<not> ?fl ! k"
    and rem: "removed st = map fst (filter (\<lambda>(u, m). \<not> m) (zip done_units ?fl))"
    and con: "map fst (consumed cfg (matched_pairs st)) =
       map fst (filter (\<lambda>(u, m). m) (zip done_units ?fl))"
    and ms: "mset (map (\<lambda>(old_unit, new_unit, sim). new_unit) (consumed cfg (matched_pairs st)))
       + mset (unmatched_new st) = mset new_units"
    and np: "length (matched_pairs st) \<le> ?i"
    and rat: "\<forall>(old_unit, new_unit, sim) \<in> set (matched_pairs st). \<exists>a b. sim = ratio a b"
    unfolding loop_inv_def by auto
  have ilt: "?i < length ?fl" using len by simp
  have fi: "\<not> ?fl ! ?i" using rest ilt by auto
  have z: "zip (done_units @ [u]) ?fl = zip done_units ?fl @ [(u, False)]"
    using zip_snoc[OF ilt, of u] fi by simp
  have zt: "zip (done_units @ [u]) (?fl[?i := True]) = zip done_units ?fl @ [(u, True)]"
    using zip_snoc[of done_units "?fl[?i := True]" u] ilt
    by (simp add: zip_update_beyond)
  consider
    (exact) j s where "j < length (unmatched_new st)"
      "s = ratio t (fst (unmatched_new st ! j))" "exact_match_threshold cfg \<le> s"
      "match_old_unit ratio cfg ?i u st =
         st\<lparr> old_matched := ?fl[?i := True],
             matched_pairs := matched_pairs st @ [(u, unmatched_new st ! j, s)],
             unmatched_new := take j (unmatched_new st) @ drop (Suc j) (unmatched_new st) \<rparr>"
  | (partial) b s where "b < length (unmatched_new st)"
      "s = ratio t (fst (unmatched_new st ! b))" "s < exact_match_threshold cfg"
      "match_old_unit ratio cfg ?i u st =
         st\<lparr> matched_pairs := matched_pairs st @ [(u, unmatched_new st ! b, s)],
             removed := removed st @ [u] \<rparr>"
  | (none) "match_old_unit ratio cfg ?i u st = st\<lparr> removed := removed st @ [u] \<rparr>"
    using match_old_unit_cases[of st ratio t cfg ?i p orig] unfolding u by blast
  then show ?thesis
  proof cases
    case exact
    have "\<forall>k. Suc ?i \<le> k \<and> k < length ?fl \<longrightarrow> \<not> (?fl[?i := True]) ! k"
      using rest by auto
    moreover have "mset (map (\<lambda>(old_unit, new_unit, sim). new_unit)
          (consumed cfg (matched_pairs st) @ [(u, unmatched_new st ! j, s)]))
        + mset (take j (unmatched_new st) @ drop (Suc j) (unmatched_new st)) = mset new_units"
    proof -
      let ?C = "map (\<lambda>(old_unit, new_unit, sim). new_unit) (consumed cfg (matched_pairs st))"
      let ?P = "take j (unmatched_new st) @ drop (Suc j) (unmatched_new st)"
      have "mset (map (\<lambda>(old_unit, new_unit, sim). new_unit)
          (consumed cfg (matched_pairs st) @ [(u, unmatched_new st ! j, s)])) + mset ?P
          = mset ?C + add_mset (unmatched_new st ! j) (mset ?P)"
        by simp
      also have "\<dots> = mset ?C + mset (unmatched_new st)"
        by (simp only: mset_pop[OF exact(1)])
      also have "\<dots> = mset new_units" by (rule ms)
      finally show ?thesis .
    qed
    ultimately show ?thesis
      unfolding loop_inv_def exact(4)
      using len rem con np rat exact(2,3) zt
      by (auto simp: consumed_snoc simp del: mset_append)
  next
    case partial
    show ?thesis
      unfolding loop_inv_def partial(4)
      using len rest rem con ms np rat partial(2,3) z
      by (auto simp: consumed_snoc)
  next
    case none
    show ?thesis
      unfolding loop_inv_def none
      using len rest rem con ms np rat z
      by auto
  qed
qed

lemma match_loop_inv:
  "loop_inv ratio cfg new_units done_units (length rest) st \<Longrightarrow>
   loop_inv ratio cfg new_units (done_units @ rest) 0
     (match_loop ratio cfg (length done_units) rest st)"
proof (induction rest arbitrary: done_units st)
  case Nil
  then show ?case by simp
next
  case (Cons u rest)
  from Cons.prems have "loop_inv ratio cfg new_units (done_units @ [u]) (length rest)
      (match_old_unit ratio cfg (length done_units) u st)"
    by (simp add: loop_inv_step)
  from Cons.IH[OF this] show ?case by simp
qed

lemma match_units_inv:
  "loop_inv ratio cfg new_units old_units 0 (match_units ratio cfg old_units new_units)"
proof -
  have "loop_inv ratio cfg new_units [] (length old_units)
      \<lparr> removed = [], matched_pairs = [], unmatched_new = new_units,
        old_matched = replicate (length old_units) False \<rparr>"
    by (simp add: loop_inv_def consumed_def)
  from match_loop_inv[OF this] show ?thesis by (simp add: match_units_def)
qed

subsection \<open>The partition of the old and of the new units\<close>

lemma mset_flags_partition:
  "length fl = length xs \<Longrightarrow>
   mset (map fst (filter (\<lambda>(u, m). \<not> m) (zip xs fl)))
     + mset (map fst (filter (\<lambda>(u, m). m) (zip xs fl))) = mset xs"
proof (induction xs arbitrary: fl)
  case Nil
  show ?case by simp
next
  case (Cons x xs)
  then obtain f fl' where "fl = f # fl'" "length fl' = length xs" by (cases fl) auto
  with Cons.IH[of fl'] show ?case by simp
qed

text \<open>
  Claim C2. In the output of \<^verbatim>\<open>compare_content_units\<close> every old unit is classified
  exactly once, by its position: the flag \<^verbatim>\<open>old_matched[i]\<close> decides between the removed
  list (flag unset) and the old side of a threshold match (flag set), in the order of the
  input; so the two lists together are the old units, each occurrence once. The new units
  consumed by a threshold match together with the added list are the new units, each
  occurrence once.
\<close>

theorem compare_content_units_partition:
  "(case compare_content_units ratio cfg old_units new_units of
      (removed_units, added_units, scores) \<Rightarrow>
        length (old_matched (match_units ratio cfg old_units new_units)) = length old_units \<and>
        removed_units = map fst (filter (\<lambda>(u, m). \<not> m)
                    (zip old_units (old_matched (match_units ratio cfg old_units new_units)))) \<and>
        map fst (consumed cfg (matched_content_pairs scores)) =
          map fst (filter (\<lambda>(u, m). m)
                    (zip old_units (old_matched (match_units ratio cfg old_units new_units)))) \<and>
        mset removed_units + mset (map fst (consumed cfg (matched_content_pairs scores))) = mset old_units \<and>
        mset (map (\<lambda>(old_unit, new_unit, sim). new_unit) (consumed cfg (matched_content_pairs scores)))
          + mset added_units = mset new_units)"
proof -
  let ?st = "match_units ratio cfg old_units new_units"
  let ?z = "zip old_units (old_matched ?st)"
  from match_units_inv[of ratio cfg new_units old_units]
  have len: "length (old_matched ?st) = length old_units"
    and rem: "removed ?st = map fst (filter (\<lambda>(u, m). \<not> m) ?z)"
    and con: "map fst (consumed cfg (matched_pairs ?st)) = map fst (filter (\<lambda>(u, m). m) ?z)"
    and ms: "mset (map (\<lambda>(old_unit, new_unit, sim). new_unit) (consumed cfg (matched_pairs ?st)))
       + mset (unmatched_new ?st) = mset new_units"
    unfolding loop_inv_def by auto
  have "mset (removed ?st) + mset (map fst (consumed cfg (matched_pairs ?st))) = mset old_units"
    unfolding rem con by (rule mset_flags_partition[OF len])
  with len rem[symmetric] con[symmetric] ms show ?thesis
    by (simp add: compare_content_units_def Let_def)
qed

subsection \<open>Threshold matches and partial matches, one iteration\<close>

lemma match_old_unit_threshold:
  assumes "j < length (unmatched_new st)"
    and "exact_match_threshold cfg \<le> ratio old_text (fst (unmatched_new st ! j))"
    and "\<forall>k < j. ratio old_text (fst (unmatched_new st ! k)) < exact_match_threshold cfg"
  shows "match_old_unit ratio cfg i (old_text, old_page, old_original) st =
           st\<lparr> old_matched := (old_matched st)[i := True],
               matched_pairs := matched_pairs st @
                 [((old_text, old_page, old_original), unmatched_new st ! j,
                   ratio old_text (fst (unmatched_new st ! j)))],
               unmatched_new := take j (unmatched_new st) @ drop (Suc j) (unmatched_new st) \<rparr>
         \<and> match_loop ratio cfg i ((old_text, old_page, old_original) # rest) st =
             match_loop ratio cfg (Suc i) rest
               (st\<lparr> old_matched := (old_matched st)[i := True],
                   matched_pairs := matched_pairs st @
                     [((old_text, old_page, old_original), unmatched_new st ! j,
                       ratio old_text (fst (unmatched_new st ! j)))],
                   unmatched_new := take j (unmatched_new st) @ drop (Suc j) (unmatched_new st) \<rparr>)"
proof -
  have "fst (scan_unmatched_new ratio cfg old_text 0 (unmatched_new st) (- 1, 0)) =
      Some (0 + j, ratio old_text (fst (unmatched_new st ! j)))"
    using assms by (rule scan_first)
  then obtain bi bs where "scan_unmatched_new ratio cfg old_text 0 (unmatched_new st) (- 1, 0) =
      (Some (j, ratio old_text (fst (unmatched_new st ! j))), bi, bs)"
    by (cases "scan_unmatched_new ratio cfg old_text 0 (unmatched_new st) (- 1, 0)") auto
  then have "match_old_unit ratio cfg i (old_text, old_page, old_original) st =
           st\<lparr> old_matched := (old_matched st)[i := True],
               matched_pairs := matched_pairs st @
                 [((old_text, old_page, old_original), unmatched_new st ! j,
                   ratio old_text (fst (unmatched_new st ! j)))],
               unmatched_new := take j (unmatched_new st) @ drop (Suc j) (unmatched_new st) \<rparr>"
    by (simp add: match_old_unit_def)
  then show ?thesis by simp
qed

lemma match_old_unit_partial:
  assumes "\<forall>k < length (unmatched_new st).
             ratio old_text (fst (unmatched_new st ! k)) < exact_match_threshold cfg"
    and "b < length (unmatched_new st)"
    and "7 / 10 < ratio old_text (fst (unmatched_new st ! b))"
    and "\<forall>k < length (unmatched_new st).
           ratio old_text (fst (unmatched_new st ! k)) \<le> ratio old_text (fst (unmatched_new st ! b))"
    and "\<forall>k < b. ratio old_text (fst (unmatched_new st ! k)) < ratio old_text (fst (unmatched_new st ! b))"
  shows "match_old_unit ratio cfg i (old_text, old_page, old_original) st =
           st\<lparr> matched_pairs := matched_pairs st @
                 [((old_text, old_page, old_original), unmatched_new st ! b,
                   ratio old_text (fst (unmatched_new st ! b)))],
               removed := removed st @ [(old_text, old_page, old_original)] \<rparr>
         \<and> unmatched_new (match_old_unit ratio cfg i (old_text, old_page, old_original) st) =
             unmatched_new st
         \<and> old_matched (match_old_unit ratio cfg i (old_text, old_page, old_original) st) =
             old_matched st"
proof -
  have "0 < ratio old_text (fst (unmatched_new st ! b))" using assms(3) by simp
  with assms
  have "scan_unmatched_new ratio cfg old_text 0 (unmatched_new st) (- 1, 0) =
      (None, int (0 + b), ratio old_text (fst (unmatched_new st ! b)))"
    by (intro scan_best) auto
  with assms(3)
  have "match_old_unit ratio cfg i (old_text, old_page, old_original) st =
           st\<lparr> matched_pairs := matched_pairs st @
                 [((old_text, old_page, old_original), unmatched_new st ! b,
                   ratio old_text (fst (unmatched_new st ! b)))],
               removed := removed st @ [(old_text, old_page, old_original)] \<rparr>"
    by (simp add: match_old_unit_def)
  then show ?thesis by simp
qed

subsection \<open>The similarity metrics\<close>

lemma sum_list_unit_interval:
  "\<forall>x \<in> set xs. 0 \<le> x \<and> x \<le> (1::real) \<Longrightarrow> 0 \<le> sum_list xs \<and> sum_list xs \<le> real (length xs)"
  by (induction xs) auto

lemma length_removed_le:
  "length (removed (match_units ratio cfg old_units new_units)) \<le> length old_units"
proof -
  let ?st = "match_units ratio cfg old_units new_units"
  from match_units_inv[of ratio cfg new_units old_units]
  have "removed ?st = map fst (filter (\<lambda>(u, m). \<not> m) (zip old_units (old_matched ?st)))"
    unfolding loop_inv_def by auto
  then have "length (removed ?st) \<le> length (zip old_units (old_matched ?st))"
    by (simp only: length_map length_filter_le)
  then show ?thesis by simp
qed

lemma matched_pairs_ratio:
  "(old_unit, new_unit, sim) \<in> set (matched_pairs (match_units ratio cfg old_units new_units))
   \<Longrightarrow> \<exists>a b. sim = ratio a b"
  using match_units_inv[of ratio cfg new_units old_units] unfolding loop_inv_def by auto

lemma length_matched_pairs_le:
  "length (matched_pairs (match_units ratio cfg old_units new_units)) \<le> length old_units"
  using match_units_inv[of ratio cfg new_units old_units] unfolding loop_inv_def by auto

text \<open>
  Claim C1, as the code has it. For a similarity ratio with values in \<open>[0, 1]\<close>:
  \<^verbatim>\<open>avg_content_similarity\<close>, \<^verbatim>\<open>retention_rate\<close> and \<^verbatim>\<open>text_similarity\<close> lie in
  \<open>[0, 100]\<close> for all inputs, and \<^verbatim>\<open>document_similarity\<close> is not negative;
  \<^verbatim>\<open>avg_content_similarity\<close> is \<open>0\<close> without matched pairs,
  \<^verbatim>\<open>document_similarity\<close> is \<open>0\<close> when either list is empty, \<^verbatim>\<open>retention_rate\<close> is
  \<open>0\<close> when the old list is empty. \<^verbatim>\<open>text_similarity\<close> has no guard of its own: it is
  \<open>100\<close> times the ratio of the two space-joined texts, whatever they are.
\<close>

theorem similarity_scores_ranges:
  assumes "\<forall>a b. 0 \<le> ratio a b \<and> ratio a b \<le> 1"
  shows "(case compare_content_units ratio cfg old_units new_units of
      (removed_units, added_units, scores) \<Rightarrow>
        0 \<le> avg_content_similarity scores \<and> avg_content_similarity scores \<le> 100 \<and>
        0 \<le> retention_rate scores \<and> retention_rate scores \<le> 100 \<and>
        0 \<le> text_similarity scores \<and> text_similarity scores \<le> 100 \<and>
        0 \<le> document_similarity scores \<and>
        (matched_content_pairs scores = [] \<longrightarrow> avg_content_similarity scores = 0) \<and>
        (old_units = [] \<or> new_units = [] \<longrightarrow> document_similarity scores = 0) \<and>
        (old_units = [] \<longrightarrow> retention_rate scores = 0) \<and>
        text_similarity scores =
          ratio (str_join [32] (map fst old_units)) (str_join [32] (map fst new_units)) * 100)"
proof -
  let ?st = "match_units ratio cfg old_units new_units"
  let ?sims = "map (\<lambda>(old_unit, new_unit, sim). sim) (matched_pairs ?st)"
  let ?n = "length (matched_pairs ?st)"
  define A where "A = (if matched_pairs ?st \<noteq> [] then sum_list ?sims / real ?n else 0) * 100"
  define D where "D = (if length old_units > 0 \<and> length new_units > 0
             then (let common_elements = int ?n;
                       total_elements = int (length old_units) + int (length new_units) - common_elements
                   in if total_elements > 0
                      then (real_of_int common_elements / real_of_int total_elements) * 100
                      else 0)
             else 0)"
  define R where "R = (if length old_units > 0
      then real_of_int (int (length old_units) - int (length (removed ?st))) / real (length old_units) * 100
      else 0)"
  define T where "T = ratio (str_join [32] (map fst old_units)) (str_join [32] (map fst new_units)) * 100"
  have cmp: "compare_content_units ratio cfg old_units new_units =
      (removed ?st, unmatched_new ?st,
       \<lparr> avg_content_similarity = A, document_similarity = D, retention_rate = R,
         text_similarity = T, matched_content_pairs = matched_pairs ?st \<rparr>)"
    by (simp add: compare_content_units_def Let_def A_def D_def R_def T_def)
  have "\<forall>x \<in> set ?sims. 0 \<le> x \<and> x \<le> 1"
    using matched_pairs_ratio[of _ _ _ ratio cfg old_units new_units] assms by fastforce
  from sum_list_unit_interval[OF this]
  have s: "0 \<le> sum_list ?sims" "sum_list ?sims \<le> real ?n" by auto
  have A0: "0 \<le> A" using s by (simp add: A_def)
  have A1: "A \<le> 100" using s by (simp add: A_def divide_le_eq)
  have Az: "matched_pairs ?st = [] \<longrightarrow> A = 0" by (simp add: A_def)
  have rl: "length (removed ?st) \<le> length old_units" by (rule length_removed_le)
  have R0: "0 \<le> R" using rl by (simp add: R_def)
  have R1: "R \<le> 100" using rl by (simp add: R_def divide_le_eq)
  have Rz: "old_units = [] \<longrightarrow> R = 0" by (simp add: R_def)
  have D0: "0 \<le> D" by (simp add: D_def Let_def)
  have Dz: "old_units = [] \<or> new_units = [] \<longrightarrow> D = 0" by (auto simp: D_def)
  have T0: "0 \<le> T" and T1: "T \<le> 100" using assms by (auto simp: T_def)
  show ?thesis
    unfolding cmp prod.case similarity_scores.simps
    using A0 A1 Az R0 R1 Rz D0 Dz T0 T1 by (simp only: T_def[symmetric] simp_thms)
qed

subsection \<open>A concrete run of the metrics\<close>

text \<open>
  Three old units that each resemble the single new unit \<open>The quick brown fox\<close> without
  reaching the threshold (ratios \<open>17/19\<close>, \<open>16/19\<close>, \<open>16/19\<close>): three pairs are
  recorded against one new unit, so the quotient of \<^verbatim>\<open>document_similarity\<close> is
  \<open>3 / (3 + 1 - 3)\<close> and the metric is \<open>300\<close>. With two empty lists the joined texts are
  empty, their ratio is \<open>1\<close>, and \<^verbatim>\<open>text_similarity\<close> is \<open>100\<close>.
\<close>

theorem similarity_scores_counterexample:
  "document_similarity (snd (snd (compare_content_units SequenceMatcher_ratio comparison_config
      [(ascii ''the quick brown dog'', 0, ascii ''The quick brown dog''),
       (ascii ''the quick brown cat'', 0, ascii ''The quick brown cat''),
       (ascii ''the quick brown pig'', 1, ascii ''The quick brown pig'')]
      [(ascii ''the quick brown fox'', 0, ascii ''The quick brown fox'')]))) = 300
   \<and> \<not> document_similarity (snd (snd (compare_content_units SequenceMatcher_ratio comparison_config
      [(ascii ''the quick brown dog'', 0, ascii ''The quick brown dog''),
       (ascii ''the quick brown cat'', 0, ascii ''The quick brown cat''),
       (ascii ''the quick brown pig'', 1, ascii ''The quick brown pig'')]
      [(ascii ''the quick brown fox'', 0, ascii ''The quick brown fox'')]))) \<le> 100
   \<and> text_similarity (snd (snd (compare_content_units SequenceMatcher_ratio comparison_config [] []))) = 100
   \<and> text_similarity (snd (snd (compare_content_units SequenceMatcher_ratio comparison_config [] []))) \<noteq> 0"
proof -
  have a: "document_similarity (snd (snd (compare_content_units SequenceMatcher_ratio comparison_config
      [(ascii ''the quick brown dog'', 0, ascii ''The quick brown dog''),
       (ascii ''the quick brown cat'', 0, ascii ''The quick brown cat''),
       (ascii ''the quick brown pig'', 1, ascii ''The quick brown pig'')]
      [(ascii ''the quick brown fox'', 0, ascii ''The quick brown fox'')]))) = 300"
    by code_simp
  have b: "text_similarity (snd (snd (compare_content_units SequenceMatcher_ratio comparison_config [] []))) = 100"
    by code_simp
  show ?thesis unfolding a b by simp
qed

theorem similarity_scores_ranges_witness:
  "(\<forall>a b. 0 \<le> SequenceMatcher_ratio a b \<and> SequenceMatcher_ratio a b \<le> 1)
   \<and> (case compare_content_units SequenceMatcher_ratio comparison_config
          [(ascii ''the quick brown dog'', 0, ascii ''The quick brown dog''),
           (ascii ''the quick brown cat'', 0, ascii ''The quick brown cat''),
           (ascii ''the quick brown pig'', 1, ascii ''The quick brown pig'')]
          [(ascii ''the quick brown fox'', 0, ascii ''The quick brown fox'')] of
      (removed_units, added_units, scores) \<Rightarrow>
        0 \<le> avg_content_similarity scores \<and> avg_content_similarity scores \<le> 100 \<and>
        0 \<le> retention_rate scores \<and> retention_rate scores \<le> 100 \<and>
        0 \<le> text_similarity scores \<and> text_similarity scores \<le> 100 \<and>
        0 \<le> document_similarity scores)
   \<and> avg_content_similarity (snd (snd (compare_content_units SequenceMatcher_ratio comparison_config
          [(ascii ''the quick brown dog'', 0, ascii ''The quick brown dog''),
           (ascii ''the quick brown cat'', 0, ascii ''The quick brown cat''),
           (ascii ''the quick brown pig'', 1, ascii ''The quick brown pig'')]
          [(ascii ''the quick brown fox'', 0, ascii ''The quick brown fox'')]))) = 4900 / 57
   \<and> retention_rate (snd (snd (compare_content_units SequenceMatcher_ratio comparison_config
          [(ascii ''the quick brown dog'', 0, ascii ''The quick brown dog''),
           (ascii ''the quick brown cat'', 0, ascii ''The quick brown cat''),
           (ascii ''the quick brown pig'', 1, ascii ''The quick brown pig'')]
          [(ascii ''the quick brown fox'', 0, ascii ''The quick brown fox'')]))) = 0"
proof -
  let ?old = "[(ascii ''the quick brown dog'', 0::nat, ascii ''The quick brown dog''),
           (ascii ''the quick brown cat'', 0, ascii ''The quick brown cat''),
           (ascii ''the quick brown pig'', 1, ascii ''The quick brown pig'')]"
  let ?new = "[(ascii ''the quick brown fox'', 0::nat, ascii ''The quick brown fox'')]"
  have h: "\<forall>a b. 0 \<le> SequenceMatcher_ratio a b \<and> SequenceMatcher_ratio a b \<le> 1"
    using SequenceMatcher_ratio_range by blast
  from similarity_scores_ranges[where ratio = SequenceMatcher_ratio and cfg = comparison_config
      and old_units = ?old and new_units = ?new, OF h]
  have c: "(case compare_content_units SequenceMatcher_ratio comparison_config ?old ?new of
      (removed_units, added_units, scores) \<Rightarrow>
        0 \<le> avg_content_similarity scores \<and> avg_content_similarity scores \<le> 100 \<and>
        0 \<le> retention_rate scores \<and> retention_rate scores \<le> 100 \<and>
        0 \<le> text_similarity scores \<and> text_similarity scores \<le> 100 \<and>
        0 \<le> document_similarity scores)"
    by (auto split: prod.splits)
  have a: "avg_content_similarity (snd (snd (compare_content_units SequenceMatcher_ratio
      comparison_config ?old ?new))) = 4900 / 57" by code_simp
  have r: "retention_rate (snd (snd (compare_content_units SequenceMatcher_ratio
      comparison_config ?old ?new))) = 0" by code_simp
  show ?thesis by (intro conjI) (rule h, rule c, rule a, rule r)
qed

section \<open>One iteration within the whole pass\<close>

lemma match_loop_append:
  "match_loop ratio cfg a (xs @ ys) st =
     match_loop ratio cfg (a + length xs) ys (match_loop ratio cfg a xs st)"
  by (induction xs arbitrary: a st) simp_all

lemma match_units_init:
  "match_units ratio cfg old_units new_units =
     match_loop ratio cfg 0 old_units (init_state old_units new_units)"
  by (simp add: match_units_def init_state_def)

lemma state_after_0: "state_after ratio cfg old_units new_units 0 = init_state old_units new_units"
  by (simp add: state_after_def)

lemma state_after_Suc:
  "i < length old_units \<Longrightarrow>
   state_after ratio cfg old_units new_units (Suc i) =
     match_old_unit ratio cfg i (old_units ! i) (state_after ratio cfg old_units new_units i)"
  by (simp add: state_after_def take_Suc_conv_app_nth match_loop_append)

lemma match_units_from:
  assumes "i \<le> length old_units"
  shows "match_units ratio cfg old_units new_units =
     match_loop ratio cfg i (drop i old_units) (state_after ratio cfg old_units new_units i)"
proof -
  have "match_loop ratio cfg 0 (take i old_units @ drop i old_units) (init_state old_units new_units) =
      match_loop ratio cfg (0 + length (take i old_units)) (drop i old_units)
        (match_loop ratio cfg 0 (take i old_units) (init_state old_units new_units))"
    by (rule match_loop_append)
  with assms show ?thesis by (simp add: match_units_init state_after_def min_absorb2)
qed

lemma state_after_inv:
  assumes "i \<le> length old_units"
  shows "loop_inv ratio cfg new_units (take i old_units) (length old_units - i)
           (state_after ratio cfg old_units new_units i)"
proof -
  have gen: "\<And>done_units rest todo st.
      loop_inv ratio cfg new_units done_units (length rest + todo) st \<Longrightarrow>
      loop_inv ratio cfg new_units (done_units @ rest) todo
        (match_loop ratio cfg (length done_units) rest st)"
  proof -
    fix done_units rest todo st
    show "loop_inv ratio cfg new_units done_units (length rest + todo) st \<Longrightarrow>
      loop_inv ratio cfg new_units (done_units @ rest) todo
        (match_loop ratio cfg (length done_units) rest st)"
    proof (induction rest arbitrary: done_units st)
      case Nil
      then show ?case by simp
    next
      case (Cons u rest)
      from Cons.prems have "loop_inv ratio cfg new_units (done_units @ [u]) (length rest + todo)
          (match_old_unit ratio cfg (length done_units) u st)"
        by (simp add: loop_inv_step)
      from Cons.IH[OF this] show ?case by simp
    qed
  qed
  have "loop_inv ratio cfg new_units [] (length (take i old_units) + (length old_units - i))
      (init_state old_units new_units)"
    using assms by (simp add: loop_inv_def consumed_def init_state_def)
  from gen[OF this] show ?thesis by (simp add: state_after_def)
qed

subsection \<open>What later iterations preserve\<close>

lemma extendsI:
  assumes "subseq (unmatched_new st') (unmatched_new st)"
    and "matched_pairs st' = matched_pairs st @ A"
    and "\<forall>p \<in> set A. fst (snd p) \<in> set (unmatched_new st)"
    and "mset (unmatched_new st) =
      mset (unmatched_new st') + mset (map (\<lambda>(old_unit, new_unit, sim). new_unit) (consumed cfg A))"
    and "removed st' = removed st @ R"
  shows "extends cfg st st'"
  unfolding extends_def
proof (intro conjI)
  show "subseq (unmatched_new st') (unmatched_new st)" by (rule assms(1))
  show "\<exists>A. matched_pairs st' = matched_pairs st @ A \<and>
        (\<forall>p \<in> set A. fst (snd p) \<in> set (unmatched_new st)) \<and>
        mset (unmatched_new st) =
          mset (unmatched_new st') + mset (map (\<lambda>(old_unit, new_unit, sim). new_unit) (consumed cfg A))"
    by (rule exI[of _ A]) (intro conjI assms(2) assms(3) assms(4))
  show "\<exists>R. removed st' = removed st @ R" by (rule exI[of _ R]) (rule assms(5))
qed

lemma extendsE:
  assumes "extends cfg st st'"
  obtains A R where "subseq (unmatched_new st') (unmatched_new st)"
    and "matched_pairs st' = matched_pairs st @ A"
    and "\<forall>p \<in> set A. fst (snd p) \<in> set (unmatched_new st)"
    and "mset (unmatched_new st) =
      mset (unmatched_new st') + mset (map (\<lambda>(old_unit, new_unit, sim). new_unit) (consumed cfg A))"
    and "removed st' = removed st @ R"
proof -
  from assms have s: "subseq (unmatched_new st') (unmatched_new st)"
    and a: "\<exists>A. matched_pairs st' = matched_pairs st @ A \<and>
        (\<forall>p \<in> set A. fst (snd p) \<in> set (unmatched_new st)) \<and>
        mset (unmatched_new st) =
          mset (unmatched_new st') + mset (map (\<lambda>(old_unit, new_unit, sim). new_unit) (consumed cfg A))"
    and r: "\<exists>R. removed st' = removed st @ R"
    unfolding extends_def by (rule conjunct1, rule conjunct1[OF conjunct2], rule conjunct2[OF conjunct2])
  from a obtain A where "matched_pairs st' = matched_pairs st @ A"
    "\<forall>p \<in> set A. fst (snd p) \<in> set (unmatched_new st)"
    "mset (unmatched_new st) =
          mset (unmatched_new st') + mset (map (\<lambda>(old_unit, new_unit, sim). new_unit) (consumed cfg A))"
    by (elim exE conjE)
  moreover from r obtain R where "removed st' = removed st @ R" by (elim exE)
  ultimately show ?thesis using s that by (elim meta_allE) (erule meta_impE, assumption)+
qed

lemma extends_refl: "extends cfg st st"
proof (rule extendsI[where A = "[]" and R = "[]"])
  show "subseq (unmatched_new st) (unmatched_new st)" by (rule subseq_order.refl)
  show "matched_pairs st = matched_pairs st @ []" by simp
  show "\<forall>p \<in> set []. fst (snd p) \<in> set (unmatched_new st)" by simp
  show "mset (unmatched_new st) =
      mset (unmatched_new st) + mset (map (\<lambda>(old_unit, new_unit, sim). new_unit) (consumed cfg []))"
    by (simp add: consumed_def)
  show "removed st = removed st @ []" by simp
qed

lemma consumed_append: "consumed cfg (A @ B) = consumed cfg A @ consumed cfg B"
  by (simp add: consumed_def)

lemma extends_trans:
  assumes "extends cfg st st1" and "extends cfg st1 st2"
  shows "extends cfg st st2"
proof -
  from assms(1) obtain A R where
    s1: "subseq (unmatched_new st1) (unmatched_new st)"
    and a1: "matched_pairs st1 = matched_pairs st @ A"
    and m1: "\<forall>p \<in> set A. fst (snd p) \<in> set (unmatched_new st)"
    and c1: "mset (unmatched_new st) =
      mset (unmatched_new st1) + mset (map (\<lambda>(old_unit, new_unit, sim). new_unit) (consumed cfg A))"
    and r1: "removed st1 = removed st @ R"
    by (rule extendsE)
  from assms(2) obtain B S where
    s2: "subseq (unmatched_new st2) (unmatched_new st1)"
    and a2: "matched_pairs st2 = matched_pairs st1 @ B"
    and m2: "\<forall>p \<in> set B. fst (snd p) \<in> set (unmatched_new st1)"
    and c2: "mset (unmatched_new st1) =
      mset (unmatched_new st2) + mset (map (\<lambda>(old_unit, new_unit, sim). new_unit) (consumed cfg B))"
    and r2: "removed st2 = removed st1 @ S"
    by (rule extendsE)
  have sub: "set (unmatched_new st1) \<subseteq> set (unmatched_new st)"
  proof
    fix x assume "x \<in> set (unmatched_new st1)"
    from list_emb_set[OF s1 this] obtain y where "y \<in> set (unmatched_new st)" "x = y" .
    then show "x \<in> set (unmatched_new st)" by simp
  qed
  have 1: "subseq (unmatched_new st2) (unmatched_new st)"
    using s2 s1 by (rule subseq_order.trans)
  have 2: "matched_pairs st2 = matched_pairs st @ (A @ B)" by (simp only: a2 a1 append_assoc)
  have 3: "\<forall>p \<in> set (A @ B). fst (snd p) \<in> set (unmatched_new st)"
  proof
    fix p assume "p \<in> set (A @ B)"
    then have "p \<in> set A \<or> p \<in> set B" by simp
    then show "fst (snd p) \<in> set (unmatched_new st)"
    proof
      assume "p \<in> set A" with m1 show ?thesis by (rule bspec)
    next
      assume "p \<in> set B"
      with m2 have "fst (snd p) \<in> set (unmatched_new st1)" by (rule bspec)
      with sub show ?thesis by (rule subsetD)
    qed
  qed
  have 4: "mset (unmatched_new st) =
      mset (unmatched_new st2) + mset (map (\<lambda>(old_unit, new_unit, sim). new_unit) (consumed cfg (A @ B)))"
  proof -
    have "mset (unmatched_new st) =
        (mset (unmatched_new st2) + mset (map (\<lambda>(old_unit, new_unit, sim). new_unit) (consumed cfg B)))
        + mset (map (\<lambda>(old_unit, new_unit, sim). new_unit) (consumed cfg A))"
      by (simp only: c1 c2[symmetric])
    then show ?thesis by (simp only: consumed_append map_append mset_append ac_simps)
  qed
  have 5: "removed st2 = removed st @ (R @ S)" by (simp only: r2 r1 append_assoc)
  show ?thesis by (rule extendsI[OF 1 2 3 4 5])
qed

lemma subseq_pop: "subseq (take j xs @ drop (Suc j) xs) xs"
proof (cases "j < length xs")
  case True
  then have "drop j xs = xs ! j # drop (Suc j) xs" by (simp add: Cons_nth_drop_Suc)
  moreover have "subseq (drop (Suc j) xs) (xs ! j # drop (Suc j) xs)"
    by (rule list_emb_Cons) (rule subseq_order.refl)
  ultimately have "subseq (drop (Suc j) xs) (drop j xs)" by (simp only:)
  then have "subseq (take j xs @ drop (Suc j) xs) (take j xs @ drop j xs)"
    by (simp only: subseq_append')
  then show ?thesis by simp
next
  case False
  then show ?thesis by simp
qed

lemma extends_step: "extends cfg st (match_old_unit ratio cfg i u st)"
proof -
  obtain t p orig where u: "u = (t, p, orig)" by (cases u) auto
  consider
    (exact) j s where "j < length (unmatched_new st)" "exact_match_threshold cfg \<le> s"
      "match_old_unit ratio cfg i u st =
         st\<lparr> old_matched := (old_matched st)[i := True],
             matched_pairs := matched_pairs st @ [(u, unmatched_new st ! j, s)],
             unmatched_new := take j (unmatched_new st) @ drop (Suc j) (unmatched_new st) \<rparr>"
  | (partial) b s where "b < length (unmatched_new st)" "s < exact_match_threshold cfg"
      "match_old_unit ratio cfg i u st =
         st\<lparr> matched_pairs := matched_pairs st @ [(u, unmatched_new st ! b, s)],
             removed := removed st @ [u] \<rparr>"
  | (none) "match_old_unit ratio cfg i u st = st\<lparr> removed := removed st @ [u] \<rparr>"
    using match_old_unit_cases[of st ratio t cfg i p orig] unfolding u by blast
  then show ?thesis
  proof cases
    case exact
    let ?st' = "st\<lparr> old_matched := (old_matched st)[i := True],
             matched_pairs := matched_pairs st @ [(u, unmatched_new st ! j, s)],
             unmatched_new := take j (unmatched_new st) @ drop (Suc j) (unmatched_new st) \<rparr>"
    have 1: "subseq (unmatched_new ?st') (unmatched_new st)" by (simp add: subseq_pop)
    have 2: "matched_pairs ?st' = matched_pairs st @ [(u, unmatched_new st ! j, s)]" by simp
    have 3: "\<forall>p \<in> set [(u, unmatched_new st ! j, s)]. fst (snd p) \<in> set (unmatched_new st)"
      using exact(1) by simp
    have 4: "mset (unmatched_new st) = mset (unmatched_new ?st') +
        mset (map (\<lambda>(old_unit, new_unit, sim). new_unit) (consumed cfg [(u, unmatched_new st ! j, s)]))"
      using mset_pop[OF exact(1)] exact(2) by (simp add: consumed_def del: mset_append)
    have 5: "removed ?st' = removed st @ []" by simp
    show ?thesis unfolding exact(3) by (rule extendsI[OF 1 2 3 4 5])
  next
    case partial
    let ?st' = "st\<lparr> matched_pairs := matched_pairs st @ [(u, unmatched_new st ! b, s)],
             removed := removed st @ [u] \<rparr>"
    have 1: "subseq (unmatched_new ?st') (unmatched_new st)" by simp
    have 2: "matched_pairs ?st' = matched_pairs st @ [(u, unmatched_new st ! b, s)]" by simp
    have 3: "\<forall>p \<in> set [(u, unmatched_new st ! b, s)]. fst (snd p) \<in> set (unmatched_new st)"
      using partial(1) by simp
    have 4: "mset (unmatched_new st) = mset (unmatched_new ?st') +
        mset (map (\<lambda>(old_unit, new_unit, sim). new_unit) (consumed cfg [(u, unmatched_new st ! b, s)]))"
      using partial(2) by (simp add: consumed_def)
    have 5: "removed ?st' = removed st @ [u]" by simp
    show ?thesis unfolding partial(3) by (rule extendsI[OF 1 2 3 4 5])
  next
    case none
    let ?st' = "st\<lparr> removed := removed st @ [u] \<rparr>"
    have 1: "subseq (unmatched_new ?st') (unmatched_new st)" by simp
    have 2: "matched_pairs ?st' = matched_pairs st @ []" by simp
    have 3: "\<forall>p \<in> set []. fst (snd p) \<in> set (unmatched_new st)" by simp
    have 4: "mset (unmatched_new st) = mset (unmatched_new ?st') +
        mset (map (\<lambda>(old_unit, new_unit, sim). new_unit) (consumed cfg []))"
      by (simp add: consumed_def)
    have 5: "removed ?st' = removed st @ [u]" by simp
    show ?thesis unfolding none by (rule extendsI[OF 1 2 3 4 5])
  qed
qed

lemma extends_loop: "extends cfg st (match_loop ratio cfg a units st)"
proof (induction units arbitrary: a st)
  case Nil
  show ?case by (simp add: extends_refl)
next
  case (Cons u units)
  have 1: "extends cfg st (match_old_unit ratio cfg a u st)" by (rule extends_step)
  have 2: "extends cfg (match_old_unit ratio cfg a u st)
      (match_loop ratio cfg (Suc a) units (match_old_unit ratio cfg a u st))"
    by (rule Cons.IH)
  from extends_trans[OF 1 2] show ?case by simp
qed

lemma flags_step:
  "k \<noteq> i \<Longrightarrow> old_matched (match_old_unit ratio cfg i u st) ! k = old_matched st ! k"
proof -
  assume k: "k \<noteq> i"
  obtain t p orig where u: "u = (t, p, orig)" by (cases u) auto
  from match_old_unit_cases[of st ratio t cfg i p orig] k show ?thesis
    unfolding u by (elim disjE exE conjE) simp_all
qed

lemma flags_loop:
  "k < a \<Longrightarrow> old_matched (match_loop ratio cfg a units st) ! k = old_matched st ! k"
proof (induction units arbitrary: a st)
  case Nil
  show ?case by simp
next
  case (Cons u units)
  have "old_matched (match_loop ratio cfg (Suc a) units (match_old_unit ratio cfg a u st)) ! k =
      old_matched (match_old_unit ratio cfg a u st) ! k"
    using Cons.prems by (intro Cons.IH) simp
  also have "\<dots> = old_matched st ! k" using Cons.prems by (intro flags_step) simp
  finally show ?case by simp
qed

lemma distinct_pop_notin:
  "distinct xs \<Longrightarrow> j < length xs \<Longrightarrow> xs ! j \<notin> set (take j xs @ drop (Suc j) xs)"
proof -
  assume d: "distinct xs" and j: "j < length xs"
  have "xs = take j xs @ xs ! j # drop (Suc j) xs" using j by (rule id_take_nth_drop)
  then have "distinct (take j xs @ xs ! j # drop (Suc j) xs)" using d by simp
  then show ?thesis by auto
qed

lemma compare_outputs:
  "fst (compare_content_units ratio cfg old_units new_units) =
     removed (match_units ratio cfg old_units new_units)"
  "fst (snd (compare_content_units ratio cfg old_units new_units)) =
     unmatched_new (match_units ratio cfg old_units new_units)"
  "matched_content_pairs (snd (snd (compare_content_units ratio cfg old_units new_units))) =
     matched_pairs (match_units ratio cfg old_units new_units)"
  by (simp_all add: compare_content_units_def Let_def)

lemma compare_avg:
  "avg_content_similarity (snd (snd (compare_content_units ratio cfg old_units new_units))) =
     (if matched_pairs (match_units ratio cfg old_units new_units) \<noteq> []
      then sum_list (map (\<lambda>(old_unit, new_unit, sim). sim)
                      (matched_pairs (match_units ratio cfg old_units new_units)))
           / real (length (matched_pairs (match_units ratio cfg old_units new_units)))
      else 0) * 100"
  by (simp add: compare_content_units_def Let_def)

lemma state_after_from:
  assumes "i \<le> k" and "k \<le> length old_units"
  shows "state_after ratio cfg old_units new_units k =
     match_loop ratio cfg i (take (k - i) (drop i old_units))
       (state_after ratio cfg old_units new_units i)"
proof -
  have "take k old_units = take i old_units @ take (k - i) (drop i old_units)"
    using take_add[of i "k - i" old_units] assms(1) by simp
  moreover have "length (take i old_units) = i" using assms by simp
  ultimately show ?thesis
    using match_loop_append[of ratio cfg 0 "take i old_units" "take (k - i) (drop i old_units)"
        "init_state old_units new_units"]
    by (simp add: state_after_def)
qed

lemma state_after_unmatched_subseq:
  "subseq (unmatched_new (state_after ratio cfg old_units new_units i)) new_units"
proof -
  have "extends cfg (init_state old_units new_units) (state_after ratio cfg old_units new_units i)"
    unfolding state_after_def by (rule extends_loop)
  then have "subseq (unmatched_new (state_after ratio cfg old_units new_units i))
      (unmatched_new (init_state old_units new_units))"
    by (rule extendsE)
  then show ?thesis by (simp add: init_state_def)
qed

lemma subseq_set_mono: "subseq xs ys \<Longrightarrow> set xs \<subseteq> set ys"
proof
  fix x assume s: "subseq xs ys" and x: "x \<in> set xs"
  from list_emb_set[OF s x] obtain y where "y \<in> set ys" "x = y" .
  then show "x \<in> set ys" by simp
qed

section \<open>Threshold matches and partial matches in the whole pass\<close>

text \<open>
  Claim C3. Let \<open>st\<close> be the loop state of \<^verbatim>\<open>compare_content_units\<close> in front of old
  unit \<open>i\<close> (the old units before it processed in ascending order) and \<open>un\<close> its
  unmatched-new list. When position \<open>j\<close> of \<open>un\<close> is the first whose similarity to old
  unit \<open>i\<close> reaches \<^verbatim>\<open>exact_match_threshold\<close>, whatever the later candidates score:
  the iteration records the pair (old unit \<open>i\<close>, candidate \<open>j\<close>, that similarity),
  removes exactly position \<open>j\<close> from the list and sets the flag of old unit \<open>i\<close>,
  leaving the removed list as it is; in every later loop state the unmatched-new list is a
  subsequence of \<open>un\<close> without position \<open>j\<close>. In the output of
  \<^verbatim>\<open>compare_content_units\<close> the pair stands in \<^verbatim>\<open>matched_content_pairs\<close> at the place it
  was recorded, the flag of old unit \<open>i\<close> is set, the added list is a subsequence of
  \<open>un\<close> without position \<open>j\<close>, and every pair recorded for a later old unit has its new
  unit among those remaining elements; when the new units are pairwise different, the
  candidate is therefore neither added nor the new unit of any later pair.
\<close>

theorem first_threshold_match_wins:
  fixes ratio cfg old_units new_units i j
  defines "st \<equiv> state_after ratio cfg old_units new_units i"
  defines "un \<equiv> unmatched_new st"
  assumes i: "i < length old_units"
    and j: "j < length un"
    and thr: "exact_match_threshold cfg \<le> ratio (fst (old_units ! i)) (fst (un ! j))"
    and first: "\<forall>k < j. ratio (fst (old_units ! i)) (fst (un ! k)) < exact_match_threshold cfg"
  shows "state_after ratio cfg old_units new_units (Suc i) =
           st\<lparr> old_matched := (old_matched st)[i := True],
               matched_pairs := matched_pairs st @
                 [(old_units ! i, un ! j, ratio (fst (old_units ! i)) (fst (un ! j)))],
               unmatched_new := take j un @ drop (Suc j) un \<rparr>
         \<and> (\<forall>k. i < k \<and> k \<le> length old_units \<longrightarrow>
               subseq (unmatched_new (state_after ratio cfg old_units new_units k))
                 (take j un @ drop (Suc j) un))
         \<and> (case compare_content_units ratio cfg old_units new_units of
               (removed_units, added_units, scores) \<Rightarrow>
                 length (matched_pairs st) < length (matched_content_pairs scores)
                 \<and> matched_content_pairs scores ! length (matched_pairs st) =
                     (old_units ! i, un ! j, ratio (fst (old_units ! i)) (fst (un ! j)))
                 \<and> old_matched (match_units ratio cfg old_units new_units) ! i
                 \<and> subseq added_units (take j un @ drop (Suc j) un)
                 \<and> (\<forall>p \<in> set (drop (Suc (length (matched_pairs st))) (matched_content_pairs scores)).
                       fst (snd p) \<in> set (take j un @ drop (Suc j) un))
                 \<and> (distinct new_units \<longrightarrow>
                       un ! j \<notin> set added_units \<and>
                       (\<forall>p \<in> set (drop (Suc (length (matched_pairs st))) (matched_content_pairs scores)).
                          fst (snd p) \<noteq> un ! j)))"
proof -
  let ?pair = "(old_units ! i, un ! j, ratio (fst (old_units ! i)) (fst (un ! j)))"
  let ?rest = "take j un @ drop (Suc j) un"
  let ?st1 = "state_after ratio cfg old_units new_units (Suc i)"
  let ?fin = "match_units ratio cfg old_units new_units"
  obtain t p orig where u: "old_units ! i = (t, p, orig)" by (cases "old_units ! i") auto
  have step: "?st1 = st\<lparr> old_matched := (old_matched st)[i := True],
               matched_pairs := matched_pairs st @ [?pair],
               unmatched_new := ?rest \<rparr>"
    using match_old_unit_threshold[of j st cfg ratio t i p orig "[]"] j thr first
    unfolding state_after_Suc[OF i] st_def[symmetric] un_def u by simp
  have un1: "unmatched_new ?st1 = ?rest" and p1: "matched_pairs ?st1 = matched_pairs st @ [?pair]"
    and f1: "old_matched ?st1 = (old_matched st)[i := True]"
    unfolding step by simp_all
  have later: "\<And>k. i < k \<Longrightarrow> k \<le> length old_units \<Longrightarrow>
      extends cfg ?st1 (state_after ratio cfg old_units new_units k)"
  proof -
    fix k assume "i < k" "k \<le> length old_units"
    then have "state_after ratio cfg old_units new_units k =
        match_loop ratio cfg (Suc i) (take (k - Suc i) (drop (Suc i) old_units)) ?st1"
      by (intro state_after_from) simp_all
    then show "extends cfg ?st1 (state_after ratio cfg old_units new_units k)"
      by (simp only: extends_loop)
  qed
  have c2: "\<forall>k. i < k \<and> k \<le> length old_units \<longrightarrow>
      subseq (unmatched_new (state_after ratio cfg old_units new_units k)) ?rest"
  proof (intro allI impI)
    fix k assume k: "i < k \<and> k \<le> length old_units"
    then have "extends cfg ?st1 (state_after ratio cfg old_units new_units k)"
      using later by blast
    then have "subseq (unmatched_new (state_after ratio cfg old_units new_units k)) (unmatched_new ?st1)"
      by (rule extendsE)
    then show "subseq (unmatched_new (state_after ratio cfg old_units new_units k)) ?rest"
      by (simp only: un1)
  qed
  have fin: "?fin = match_loop ratio cfg (Suc i) (drop (Suc i) old_units) ?st1"
    using i by (intro match_units_from) simp
  have "extends cfg ?st1 ?fin" unfolding fin by (rule extends_loop)
  then obtain A R where s: "subseq (unmatched_new ?fin) (unmatched_new ?st1)"
    and a: "matched_pairs ?fin = matched_pairs ?st1 @ A"
    and m: "\<forall>p \<in> set A. fst (snd p) \<in> set (unmatched_new ?st1)"
    by (rule extendsE)
  have pf: "matched_pairs ?fin = matched_pairs st @ ?pair # A" using a p1 by simp
  have l: "length (matched_pairs st) < length (matched_pairs ?fin)" unfolding pf by simp
  have n: "matched_pairs ?fin ! length (matched_pairs st) = ?pair" unfolding pf by simp
  have d: "drop (Suc (length (matched_pairs st))) (matched_pairs ?fin) = A" unfolding pf by simp
  have "loop_inv ratio cfg new_units (take i old_units) (length old_units - i) st"
    unfolding st_def using i by (intro state_after_inv) simp
  then have "length (old_matched st) = length old_units"
    using i by (simp add: loop_inv_def)
  then have "old_matched ?st1 ! i" using i by (simp add: f1)
  moreover have "old_matched ?fin ! i = old_matched ?st1 ! i"
    unfolding fin by (rule flags_loop) simp
  ultimately have fl: "old_matched ?fin ! i" by simp
  have sa: "subseq (unmatched_new ?fin) ?rest" using s by (simp only: un1)
  have ma: "\<forall>p \<in> set A. fst (snd p) \<in> set ?rest" using m by (simp only: un1)
  have dist: "distinct new_units \<longrightarrow>
      un ! j \<notin> set (unmatched_new ?fin) \<and> (\<forall>p \<in> set A. fst (snd p) \<noteq> un ! j)"
  proof
    assume dn: "distinct new_units"
    have "subseq un new_units" unfolding un_def st_def by (rule state_after_unmatched_subseq)
    then have "un \<in> set (subseqs new_units)" by simp
    then have "distinct un" using dn by (rule subseqs_distinctD)
    then have notin: "un ! j \<notin> set ?rest" using j by (rule distinct_pop_notin)
    have "set (unmatched_new ?fin) \<subseteq> set ?rest" using sa by (rule subseq_set_mono)
    with notin have "un ! j \<notin> set (unmatched_new ?fin)" by blast
    moreover have "\<forall>p \<in> set A. fst (snd p) \<noteq> un ! j"
    proof
      fix p assume "p \<in> set A"
      with ma have "fst (snd p) \<in> set ?rest" by (rule bspec)
      with notin show "fst (snd p) \<noteq> un ! j" by metis
    qed
    ultimately show "un ! j \<notin> set (unmatched_new ?fin) \<and> (\<forall>p \<in> set A. fst (snd p) \<noteq> un ! j)"
      by (rule conjI)
  qed
  have out: "compare_content_units ratio cfg old_units new_units =
      (fst (compare_content_units ratio cfg old_units new_units),
       fst (snd (compare_content_units ratio cfg old_units new_units)),
       snd (snd (compare_content_units ratio cfg old_units new_units)))" by simp
  have c3: "(case compare_content_units ratio cfg old_units new_units of
               (removed_units, added_units, scores) \<Rightarrow>
                 length (matched_pairs st) < length (matched_content_pairs scores)
                 \<and> matched_content_pairs scores ! length (matched_pairs st) = ?pair
                 \<and> old_matched ?fin ! i
                 \<and> subseq added_units ?rest
                 \<and> (\<forall>p \<in> set (drop (Suc (length (matched_pairs st))) (matched_content_pairs scores)).
                       fst (snd p) \<in> set ?rest)
                 \<and> (distinct new_units \<longrightarrow>
                       un ! j \<notin> set added_units \<and>
                       (\<forall>p \<in> set (drop (Suc (length (matched_pairs st))) (matched_content_pairs scores)).
                          fst (snd p) \<noteq> un ! j)))"
    apply (subst out)
    unfolding prod.case compare_outputs d
    using l n fl sa ma dist by (intro conjI)
  show ?thesis using step c2 c3 by (intro conjI)
qed

text \<open>
  Claim C4. Let \<open>st\<close> be the loop state of \<^verbatim>\<open>compare_content_units\<close> in front of old
  unit \<open>i\<close> and \<open>un\<close> its unmatched-new list. When no candidate of \<open>un\<close> reaches the
  threshold and the best similarity, attained first at position \<open>b\<close>, is above \<open>0.7\<close>:
  the iteration appends the pair (old unit \<open>i\<close>, candidate \<open>b\<close>, best similarity) to the
  matched pairs and old unit \<open>i\<close> to the removed list, and leaves the unmatched-new list
  as it is. In the output of \<^verbatim>\<open>compare_content_units\<close> the pair stands in
  \<^verbatim>\<open>matched_content_pairs\<close> at the place it was recorded,
  \<^verbatim>\<open>avg_content_similarity\<close> is the mean over all of \<^verbatim>\<open>matched_content_pairs\<close> times
  \<open>100\<close>, old unit \<open>i\<close> stands in the removed list at the place it was appended and
  its flag is unset, and the candidate is either in the added list or the new unit of a
  threshold match of a later old unit.
\<close>

theorem partial_match_recorded_and_removed:
  fixes ratio cfg old_units new_units i b
  defines "st \<equiv> state_after ratio cfg old_units new_units i"
  defines "un \<equiv> unmatched_new st"
  assumes i: "i < length old_units"
    and none: "\<forall>k < length un. ratio (fst (old_units ! i)) (fst (un ! k)) < exact_match_threshold cfg"
    and b: "b < length un"
    and good: "7 / 10 < ratio (fst (old_units ! i)) (fst (un ! b))"
    and best: "\<forall>k < length un. ratio (fst (old_units ! i)) (fst (un ! k))
                 \<le> ratio (fst (old_units ! i)) (fst (un ! b))"
    and first: "\<forall>k < b. ratio (fst (old_units ! i)) (fst (un ! k))
                 < ratio (fst (old_units ! i)) (fst (un ! b))"
  shows "state_after ratio cfg old_units new_units (Suc i) =
           st\<lparr> matched_pairs := matched_pairs st @
                 [(old_units ! i, un ! b, ratio (fst (old_units ! i)) (fst (un ! b)))],
               removed := removed st @ [old_units ! i] \<rparr>
         \<and> unmatched_new (state_after ratio cfg old_units new_units (Suc i)) = un
         \<and> (case compare_content_units ratio cfg old_units new_units of
               (removed_units, added_units, scores) \<Rightarrow>
                 length (matched_pairs st) < length (matched_content_pairs scores)
                 \<and> matched_content_pairs scores ! length (matched_pairs st) =
                     (old_units ! i, un ! b, ratio (fst (old_units ! i)) (fst (un ! b)))
                 \<and> avg_content_similarity scores =
                     sum_list (map (\<lambda>(old_unit, new_unit, sim). sim) (matched_content_pairs scores))
                       / real (length (matched_content_pairs scores)) * 100
                 \<and> length (removed st) < length removed_units
                 \<and> removed_units ! length (removed st) = old_units ! i
                 \<and> \<not> old_matched (match_units ratio cfg old_units new_units) ! i
                 \<and> (un ! b \<in> set added_units \<or>
                     un ! b \<in> set (map (\<lambda>(old_unit, new_unit, sim). new_unit)
                       (consumed cfg (drop (Suc (length (matched_pairs st)))
                          (matched_content_pairs scores))))))"
proof -
  let ?pair = "(old_units ! i, un ! b, ratio (fst (old_units ! i)) (fst (un ! b)))"
  let ?st1 = "state_after ratio cfg old_units new_units (Suc i)"
  let ?fin = "match_units ratio cfg old_units new_units"
  obtain t p orig where u: "old_units ! i = (t, p, orig)" by (cases "old_units ! i") auto
  have step: "?st1 = st\<lparr> matched_pairs := matched_pairs st @ [?pair],
               removed := removed st @ [old_units ! i] \<rparr>"
    using match_old_unit_partial[of st ratio t cfg b i p orig] none b good best first
    unfolding state_after_Suc[OF i] st_def[symmetric] un_def u by simp
  have un1: "unmatched_new ?st1 = un" and p1: "matched_pairs ?st1 = matched_pairs st @ [?pair]"
    and r1: "removed ?st1 = removed st @ [old_units ! i]"
    and f1: "old_matched ?st1 = old_matched st"
    unfolding step by (simp_all add: un_def)
  have fin: "?fin = match_loop ratio cfg (Suc i) (drop (Suc i) old_units) ?st1"
    using i by (intro match_units_from) simp
  have "extends cfg ?st1 ?fin" unfolding fin by (rule extends_loop)
  then obtain A R where a: "matched_pairs ?fin = matched_pairs ?st1 @ A"
    and c: "mset (unmatched_new ?st1) =
      mset (unmatched_new ?fin) + mset (map (\<lambda>(old_unit, new_unit, sim). new_unit) (consumed cfg A))"
    and r: "removed ?fin = removed ?st1 @ R"
    by (rule extendsE)
  have pf: "matched_pairs ?fin = matched_pairs st @ ?pair # A" using a p1 by simp
  have l: "length (matched_pairs st) < length (matched_pairs ?fin)" unfolding pf by simp
  have n: "matched_pairs ?fin ! length (matched_pairs st) = ?pair" unfolding pf by simp
  have d: "drop (Suc (length (matched_pairs st))) (matched_pairs ?fin) = A" unfolding pf by simp
  have ne: "matched_pairs ?fin \<noteq> []" unfolding pf by simp
  have avg: "avg_content_similarity (snd (snd (compare_content_units ratio cfg old_units new_units))) =
      sum_list (map (\<lambda>(old_unit, new_unit, sim). sim) (matched_pairs ?fin))
        / real (length (matched_pairs ?fin)) * 100"
    unfolding compare_avg using ne by simp
  have rf: "removed ?fin = removed st @ old_units ! i # R" using r r1 by simp
  have rl: "length (removed st) < length (removed ?fin)" unfolding rf by simp
  have rn: "removed ?fin ! length (removed st) = old_units ! i" unfolding rf by simp
  have "loop_inv ratio cfg new_units (take i old_units) (length old_units - i) st"
    unfolding st_def using i by (intro state_after_inv) simp
  then have "\<not> old_matched st ! i" using i by (simp add: loop_inv_def)
  moreover have "old_matched ?fin ! i = old_matched ?st1 ! i"
    unfolding fin by (rule flags_loop) simp
  ultimately have fl: "\<not> old_matched ?fin ! i" by (simp add: f1)
  have "un ! b \<in># mset un" using b by simp
  then have "un ! b \<in># mset (unmatched_new ?fin) + mset (map (\<lambda>(old_unit, new_unit, sim). new_unit) (consumed cfg A))"
    using c by (simp only: un1)
  then have el: "un ! b \<in> set (unmatched_new ?fin) \<or>
      un ! b \<in> set (map (\<lambda>(old_unit, new_unit, sim). new_unit) (consumed cfg A))"
    by (simp only: union_iff set_mset_mset)
  have out: "compare_content_units ratio cfg old_units new_units =
      (fst (compare_content_units ratio cfg old_units new_units),
       fst (snd (compare_content_units ratio cfg old_units new_units)),
       snd (snd (compare_content_units ratio cfg old_units new_units)))" by simp
  have c3: "(case compare_content_units ratio cfg old_units new_units of
               (removed_units, added_units, scores) \<Rightarrow>
                 length (matched_pairs st) < length (matched_content_pairs scores)
                 \<and> matched_content_pairs scores ! length (matched_pairs st) = ?pair
                 \<and> avg_content_similarity scores =
                     sum_list (map (\<lambda>(old_unit, new_unit, sim). sim) (matched_content_pairs scores))
                       / real (length (matched_content_pairs scores)) * 100
                 \<and> length (removed st) < length removed_units
                 \<and> removed_units ! length (removed st) = old_units ! i
                 \<and> \<not> old_matched ?fin ! i
                 \<and> (un ! b \<in> set added_units \<or>
                     un ! b \<in> set (map (\<lambda>(old_unit, new_unit, sim). new_unit)
                       (consumed cfg (drop (Suc (length (matched_pairs st)))
                          (matched_content_pairs scores))))))"
    apply (subst out)
    unfolding prod.case avg compare_outputs d
    using l n rl rn fl el by (intro conjI refl)
  show ?thesis using step un1 c3 by (intro conjI)
qed

subsection \<open>Concrete runs of the whole pass\<close>

text \<open>
  The old unit \<open>The quick brown fox jumps\<close> meets a candidate without a common
  character (ratio \<open>0\<close>), then a copy that differs in the last letter (ratio \<open>24/25\<close>,
  above the threshold \<open>0.92\<close>), then an exact copy (ratio \<open>1\<close>): the second candidate is
  taken. The second old unit, \<open>The quick brown fox jumpz\<close>, is equal to the candidate
  just consumed; it cannot have it and is matched to the remaining copy.
\<close>

lemma jumps_run:
  "match_units SequenceMatcher_ratio comparison_config jumps_old_units jumps_new_units =
   \<lparr> removed = [],
     matched_pairs =
       [((ascii ''the quick brown fox jumps'', 0, ascii ''The quick brown fox jumps''),
         (ascii ''the quick brown fox jumpz'', 0, ascii ''The quick brown fox jumpz''), 24 / 25),
        ((ascii ''the quick brown fox jumpz'', 1, ascii ''The quick brown fox jumpz''),
         (ascii ''the quick brown fox jumps'', 2, ascii ''The quick brown fox jumps''), 24 / 25)],
     unmatched_new = [(ascii ''1234567890123456'', 0, ascii ''1234567890123456'')],
     old_matched = [True, True] \<rparr>"
  by code_simp

theorem first_threshold_match_wins_witness:
  "unmatched_new (state_after SequenceMatcher_ratio comparison_config jumps_old_units jumps_new_units 0)
     = jumps_new_units
   \<and> SequenceMatcher_ratio (fst (jumps_old_units ! 0)) (fst (jumps_new_units ! 0))
       < exact_match_threshold comparison_config
   \<and> exact_match_threshold comparison_config
       \<le> SequenceMatcher_ratio (fst (jumps_old_units ! 0)) (fst (jumps_new_units ! 1))
   \<and> SequenceMatcher_ratio (fst (jumps_old_units ! 0)) (fst (jumps_new_units ! 1))
       < SequenceMatcher_ratio (fst (jumps_old_units ! 0)) (fst (jumps_new_units ! 2))
   \<and> matched_content_pairs (snd (snd (compare_content_units SequenceMatcher_ratio comparison_config
         jumps_old_units jumps_new_units))) ! 0 =
       (jumps_old_units ! 0, jumps_new_units ! 1, 24 / 25)
   \<and> old_matched (match_units SequenceMatcher_ratio comparison_config jumps_old_units jumps_new_units) ! 0
   \<and> jumps_new_units ! 1 \<notin> set (fst (snd (compare_content_units SequenceMatcher_ratio
         comparison_config jumps_old_units jumps_new_units)))
   \<and> fst (snd (compare_content_units SequenceMatcher_ratio comparison_config
         jumps_old_units jumps_new_units)) = [jumps_new_units ! 0]
   \<and> fst (snd (matched_content_pairs (snd (snd (compare_content_units SequenceMatcher_ratio
         comparison_config jumps_old_units jumps_new_units))) ! 1)) = jumps_new_units ! 2"
proof -
  let ?old = jumps_old_units and ?new = jumps_new_units
  let ?cmp = "compare_content_units SequenceMatcher_ratio comparison_config ?old ?new"
  have un0: "unmatched_new (state_after SequenceMatcher_ratio comparison_config ?old ?new 0) = ?new"
    by (simp add: state_after_0 init_state_def)
  have p0: "matched_pairs (state_after SequenceMatcher_ratio comparison_config ?old ?new 0) = []"
    by (simp add: state_after_0 init_state_def)
  have r0: "SequenceMatcher_ratio (fst (?old ! 0)) (fst (?new ! 0)) = 0"
    unfolding jumps_old_units_def jumps_new_units_def by code_simp
  have r1: "SequenceMatcher_ratio (fst (?old ! 0)) (fst (?new ! 1)) = 24 / 25"
    unfolding jumps_old_units_def jumps_new_units_def by code_simp
  have r2: "SequenceMatcher_ratio (fst (?old ! 0)) (fst (?new ! 2)) = 1"
    unfolding jumps_old_units_def jumps_new_units_def by code_simp
  have thr: "exact_match_threshold comparison_config = 92 / 100"
    by (simp add: comparison_config_def)
  have hi: "0 < length ?old" by (simp add: jumps_old_units_def)
  have hj: "1 < length (unmatched_new (state_after SequenceMatcher_ratio comparison_config ?old ?new 0))"
    unfolding un0 by (simp add: jumps_new_units_def)
  have ht: "exact_match_threshold comparison_config \<le> SequenceMatcher_ratio (fst (?old ! 0))
      (fst (unmatched_new (state_after SequenceMatcher_ratio comparison_config ?old ?new 0) ! 1))"
    unfolding un0 r1 thr by simp
  have hf: "\<forall>k < 1. SequenceMatcher_ratio (fst (?old ! 0))
      (fst (unmatched_new (state_after SequenceMatcher_ratio comparison_config ?old ?new 0) ! k))
        < exact_match_threshold comparison_config"
    unfolding un0 thr by (simp add: r0)
  have dn: "distinct ?new" by (simp add: jumps_new_units_def ascii_def)
  note t = first_threshold_match_wins[where ratio = SequenceMatcher_ratio
      and cfg = comparison_config and old_units = ?old and new_units = ?new and i = 0 and j = 1,
      OF hi hj ht hf]
  from t have c: "(case ?cmp of (removed_units, added_units, scores) \<Rightarrow>
      matched_content_pairs scores ! 0 = (?old ! 0, ?new ! 1, 24 / 25)
      \<and> old_matched (match_units SequenceMatcher_ratio comparison_config ?old ?new) ! 0
      \<and> ?new ! 1 \<notin> set added_units)"
    unfolding un0 p0 r1 using dn by (cases ?cmp) simp
  then have c1: "matched_content_pairs (snd (snd ?cmp)) ! 0 = (?old ! 0, ?new ! 1, 24 / 25)"
    and c2: "old_matched (match_units SequenceMatcher_ratio comparison_config ?old ?new) ! 0"
    and c3: "?new ! 1 \<notin> set (fst (snd ?cmp))"
    by (cases ?cmp, simp)+
  have a: "fst (snd ?cmp) = [?new ! 0]"
    unfolding compare_outputs jumps_run by (simp add: jumps_new_units_def)
  have b: "fst (snd (matched_content_pairs (snd (snd ?cmp)) ! 1)) = ?new ! 2"
    unfolding compare_outputs jumps_run by (simp add: jumps_new_units_def)
  have l0: "SequenceMatcher_ratio (fst (?old ! 0)) (fst (?new ! 0)) < exact_match_threshold comparison_config"
    unfolding r0 thr by simp
  have l1: "exact_match_threshold comparison_config \<le> SequenceMatcher_ratio (fst (?old ! 0)) (fst (?new ! 1))"
    unfolding r1 thr by simp
  have l2: "SequenceMatcher_ratio (fst (?old ! 0)) (fst (?new ! 1))
      < SequenceMatcher_ratio (fst (?old ! 0)) (fst (?new ! 2))"
    unfolding r1 r2 by simp
  show ?thesis by (intro conjI) (rule un0, rule l0, rule l1, rule l2, rule c1, rule c2, rule c3, rule a, rule b)
qed

text \<open>
  The old unit \<open>The quick brown dog\<close> meets \<open>The quick brown cat\<close> (ratio \<open>16/19\<close>)
  and \<open>The quick brown fox\<close> (ratio \<open>17/19\<close>): both are below the threshold and the
  second is the best, above \<open>0.7\<close>. The pair with the second is recorded and the old unit
  is removed; the candidate stays and is then matched by the next old unit, an exact copy
  of it, while the first candidate ends up added.
\<close>

lemma dog_run:
  "match_units SequenceMatcher_ratio comparison_config dog_old_units dog_new_units =
   \<lparr> removed = [(ascii ''the quick brown dog'', 0, ascii ''The quick brown dog'')],
     matched_pairs =
       [((ascii ''the quick brown dog'', 0, ascii ''The quick brown dog''),
         (ascii ''the quick brown fox'', 0, ascii ''The quick brown fox''), 17 / 19),
        ((ascii ''the quick brown fox'', 1, ascii ''The quick brown fox''),
         (ascii ''the quick brown fox'', 0, ascii ''The quick brown fox''), 1)],
     unmatched_new = [(ascii ''the quick brown cat'', 0, ascii ''The quick brown cat'')],
     old_matched = [False, True] \<rparr>"
  by code_simp

theorem partial_match_recorded_and_removed_witness:
  "unmatched_new (state_after SequenceMatcher_ratio comparison_config dog_old_units dog_new_units 0)
     = dog_new_units
   \<and> SequenceMatcher_ratio (fst (dog_old_units ! 0)) (fst (dog_new_units ! 0)) = 16 / 19
   \<and> SequenceMatcher_ratio (fst (dog_old_units ! 0)) (fst (dog_new_units ! 1)) = 17 / 19
   \<and> 17 / 19 < exact_match_threshold comparison_config
   \<and> matched_content_pairs (snd (snd (compare_content_units SequenceMatcher_ratio comparison_config
         dog_old_units dog_new_units))) ! 0 =
       (dog_old_units ! 0, dog_new_units ! 1, 17 / 19)
   \<and> fst (compare_content_units SequenceMatcher_ratio comparison_config
         dog_old_units dog_new_units) ! 0 = dog_old_units ! 0
   \<and> \<not> old_matched (match_units SequenceMatcher_ratio comparison_config dog_old_units dog_new_units) ! 0
   \<and> matched_content_pairs (snd (snd (compare_content_units SequenceMatcher_ratio comparison_config
         dog_old_units dog_new_units))) ! 1 =
       (dog_old_units ! 1, dog_new_units ! 1, 1)
   \<and> fst (snd (compare_content_units SequenceMatcher_ratio comparison_config
         dog_old_units dog_new_units)) = [dog_new_units ! 0]"
proof -
  let ?old = dog_old_units and ?new = dog_new_units
  let ?cmp = "compare_content_units SequenceMatcher_ratio comparison_config ?old ?new"
  have un0: "unmatched_new (state_after SequenceMatcher_ratio comparison_config ?old ?new 0) = ?new"
    by (simp add: state_after_0 init_state_def)
  have p0: "matched_pairs (state_after SequenceMatcher_ratio comparison_config ?old ?new 0) = []"
    by (simp add: state_after_0 init_state_def)
  have rm0: "removed (state_after SequenceMatcher_ratio comparison_config ?old ?new 0) = []"
    by (simp add: state_after_0 init_state_def)
  have r0: "SequenceMatcher_ratio (fst (?old ! 0)) (fst (?new ! 0)) = 16 / 19"
    unfolding dog_old_units_def dog_new_units_def by code_simp
  have r1: "SequenceMatcher_ratio (fst (?old ! 0)) (fst (?new ! 1)) = 17 / 19"
    unfolding dog_old_units_def dog_new_units_def by code_simp
  have thr: "exact_match_threshold comparison_config = 92 / 100"
    by (simp add: comparison_config_def)
  have len: "length ?new = 2" by (simp add: dog_new_units_def)
  have hi: "0 < length ?old" by (simp add: dog_old_units_def)
  have hn: "\<forall>k < length (unmatched_new (state_after SequenceMatcher_ratio comparison_config ?old ?new 0)).
      SequenceMatcher_ratio (fst (?old ! 0))
        (fst (unmatched_new (state_after SequenceMatcher_ratio comparison_config ?old ?new 0) ! k))
        < exact_match_threshold comparison_config"
    unfolding un0 len thr using r0 r1 by (simp add: less_Suc_eq numeral_2_eq_2)
  have hb: "1 < length (unmatched_new (state_after SequenceMatcher_ratio comparison_config ?old ?new 0))"
    unfolding un0 len by simp
  have hg: "7 / 10 < SequenceMatcher_ratio (fst (?old ! 0))
      (fst (unmatched_new (state_after SequenceMatcher_ratio comparison_config ?old ?new 0) ! 1))"
    unfolding un0 r1 by simp
  have hbest: "\<forall>k < length (unmatched_new (state_after SequenceMatcher_ratio comparison_config ?old ?new 0)).
      SequenceMatcher_ratio (fst (?old ! 0))
        (fst (unmatched_new (state_after SequenceMatcher_ratio comparison_config ?old ?new 0) ! k))
      \<le> SequenceMatcher_ratio (fst (?old ! 0))
        (fst (unmatched_new (state_after SequenceMatcher_ratio comparison_config ?old ?new 0) ! 1))"
    unfolding un0 len using r0 r1 by (simp add: less_Suc_eq numeral_2_eq_2)
  have hfirst: "\<forall>k < 1. SequenceMatcher_ratio (fst (?old ! 0))
        (fst (unmatched_new (state_after SequenceMatcher_ratio comparison_config ?old ?new 0) ! k))
      < SequenceMatcher_ratio (fst (?old ! 0))
        (fst (unmatched_new (state_after SequenceMatcher_ratio comparison_config ?old ?new 0) ! 1))"
    unfolding un0 using r0 r1 by simp
  note t = partial_match_recorded_and_removed[where ratio = SequenceMatcher_ratio
      and cfg = comparison_config and old_units = ?old and new_units = ?new and i = 0 and b = 1,
      OF hi hn hb hg hbest hfirst]
  from t have c: "(case ?cmp of (removed_units, added_units, scores) \<Rightarrow>
      matched_content_pairs scores ! 0 = (?old ! 0, ?new ! 1, 17 / 19)
      \<and> removed_units ! 0 = ?old ! 0
      \<and> \<not> old_matched (match_units SequenceMatcher_ratio comparison_config ?old ?new) ! 0)"
    unfolding un0 p0 rm0 r1 by (cases ?cmp) simp
  then have c1: "matched_content_pairs (snd (snd ?cmp)) ! 0 = (?old ! 0, ?new ! 1, 17 / 19)"
    and c2: "fst ?cmp ! 0 = ?old ! 0"
    and c3: "\<not> old_matched (match_units SequenceMatcher_ratio comparison_config ?old ?new) ! 0"
    by (cases ?cmp, simp)+
  have a: "matched_content_pairs (snd (snd ?cmp)) ! 1 = (?old ! 1, ?new ! 1, 1)"
    unfolding compare_outputs dog_run by (simp add: dog_old_units_def dog_new_units_def)
  have b: "fst (snd ?cmp) = [?new ! 0]"
    unfolding compare_outputs dog_run by (simp add: dog_new_units_def)
  have l: "17 / 19 < exact_match_threshold comparison_config" unfolding thr by simp
  show ?thesis by (intro conjI) (rule un0, rule r0, rule r1, rule l, rule c1, rule c2, rule c3, rule a, rule b)
qed

end
